theory Spec2Isabelle
  imports Complex_Main "HOL-Library.Monad_Syntax"
begin

section \<open>Dense row-major tensors\<close>

text \<open>
  The arrays of the program are xtensor containers in row-major layout: a shape and a
  flat buffer.  Element access \<open>t(i, j, ...)\<close> is unchecked in the source; the model
  returns \<open>None\<close> for an index outside the extents (or outside the buffer), so that a
  run which would read memory that is not the addressed element is a failed run.

  Numbers: the weights are single-precision and the energies double-precision floating
  point numbers in the source; here both are exact reals, so the rounding of the sums
  in \<open>evaluate\<close> is not modelled.  The one place where the source narrows an energy
  to single precision, \<open>best_e\<close> of the K-candidate \<open>fuse\<close>, is modelled with the
  rounding to the nearest single-precision value.
  Loop counters and coordinates are C++ \<open>int\<close>; they are unbounded here (signed overflow
  has no defined behaviour to model).  Labels are unsigned integers that are only ever
  compared for equality; they are natural numbers here.  The result tensor of the
  three-axis engine has element type \<open>int\<close>; what is written to it is narrowed to 32
  bits.
\<close>

record 'a xtensor =
  xshape :: "nat list"
  xdata :: "'a list"

definition wf_tensor :: "'a xtensor \<Rightarrow> bool" where
  "wf_tensor t = (length (xdata t) = prod_list (xshape t))"

definition xat2 :: "'a xtensor \<Rightarrow> nat \<Rightarrow> nat \<Rightarrow> 'a option" where
  "xat2 t i j =
     (case xshape t of
        [n0, n1] \<Rightarrow>
          if i < n0 \<and> j < n1 \<and> i * n1 + j < length (xdata t)
          then Some (xdata t ! (i * n1 + j)) else None
      | _ \<Rightarrow> None)"

definition xat3 :: "'a xtensor \<Rightarrow> nat \<Rightarrow> nat \<Rightarrow> nat \<Rightarrow> 'a option" where
  "xat3 t i j k =
     (case xshape t of
        [n0, n1, n2] \<Rightarrow>
          if i < n0 \<and> j < n1 \<and> k < n2 \<and> (i * n1 + j) * n2 + k < length (xdata t)
          then Some (xdata t ! ((i * n1 + j) * n2 + k)) else None
      | _ \<Rightarrow> None)"

definition xat4 :: "'a xtensor \<Rightarrow> nat \<Rightarrow> nat \<Rightarrow> nat \<Rightarrow> nat \<Rightarrow> 'a option" where
  "xat4 t i j k l =
     (case xshape t of
        [n0, n1, n2, n3] \<Rightarrow>
          if i < n0 \<and> j < n1 \<and> k < n2 \<and> l < n3
             \<and> ((i * n1 + j) * n2 + k) * n3 + l < length (xdata t)
          then Some (xdata t ! (((i * n1 + j) * n2 + k) * n3 + l)) else None
      | _ \<Rightarrow> None)"

text \<open>A loop over a list whose body may fail: the first failure ends the run.\<close>

fun foldM :: "('a \<Rightarrow> 's \<Rightarrow> 's option) \<Rightarrow> 'a list \<Rightarrow> 's \<Rightarrow> 's option" where
  "foldM f [] s = Some s"
| "foldM f (x # xs) s = Option.bind (f x s) (foldM f xs)"

section \<open>The pixel-wise objective\<close>

text \<open>
  \<open>PixelWiseLmcObjective<DIM>\<close>: the weight tensor (grid shape with the offset axis
  last), the offsets (one row per offset), and what the constructor derives from the
  shape of the weights.
\<close>

record objective =
  weights :: "real xtensor"
  offsets :: "int xtensor"
  shape :: "nat list"
  n_offsets :: nat
  n_variables :: nat

definition PixelWiseLmcObjective :: "nat \<Rightarrow> real xtensor \<Rightarrow> int xtensor \<Rightarrow> objective" where
  "PixelWiseLmcObjective DIM e_weights e_offsets =
     \<lparr> weights = e_weights,
       offsets = e_offsets,
       shape = take DIM (xshape e_weights),
       n_offsets = xshape e_weights ! DIM,
       n_variables = prod_list (take DIM (xshape e_weights)) \<rparr>"

text \<open>
  \<open>EvalHelper<2>::evaluate\<close>.  It is a template over the type of the labels, which it
  only compares.
\<close>

definition evaluate2 :: "objective \<Rightarrow> 'a xtensor \<Rightarrow> real option" where
  "evaluate2 obj labels =
     foldM (\<lambda>p0 e.
       foldM (\<lambda>p1 e. do {
         label_p \<leftarrow> xat2 labels p0 p1;
         foldM (\<lambda>offset_index e. do {
           o0 \<leftarrow> xat2 (offsets obj) offset_index 0;
           o1 \<leftarrow> xat2 (offsets obj) offset_index 1;
           let q0 = int p0 + o0;
           let q1 = int p1 + o1;
           if q0 \<ge> 0 \<and> q0 < int (shape obj ! 0) \<and> q1 \<ge> 0 \<and> q1 < int (shape obj ! 1)
           then do {
             label_q \<leftarrow> xat2 labels (nat q0) (nat q1);
             if label_p \<noteq> label_q
             then do {
               w \<leftarrow> xat3 (weights obj) p0 p1 offset_index;
               Some (e + w)
             }
             else Some e
           }
           else Some e
         }) [0..<n_offsets obj] e
       }) [0..<shape obj ! 1] e) [0..<shape obj ! 0] 0"

text \<open>\<open>EvalHelper<3>::evaluate\<close>.\<close>

definition evaluate3 :: "objective \<Rightarrow> 'a xtensor \<Rightarrow> real option" where
  "evaluate3 obj labels =
     foldM (\<lambda>p0 e.
       foldM (\<lambda>p1 e.
         foldM (\<lambda>p2 e. do {
           label_p \<leftarrow> xat3 labels p0 p1 p2;
           foldM (\<lambda>offset_index e. do {
             o0 \<leftarrow> xat2 (offsets obj) offset_index 0;
             o1 \<leftarrow> xat2 (offsets obj) offset_index 1;
             o2 \<leftarrow> xat2 (offsets obj) offset_index 2;
             let q0 = int p0 + o0;
             let q1 = int p1 + o1;
             let q2 = int p2 + o2;
             if q0 \<ge> 0 \<and> q0 < int (shape obj ! 0) \<and>
                q1 \<ge> 0 \<and> q1 < int (shape obj ! 1) \<and>
                q2 \<ge> 0 \<and> q2 < int (shape obj ! 2)
             then do {
               label_q \<leftarrow> xat3 labels (nat q0) (nat q1) (nat q2);
               if label_p \<noteq> label_q
               then do {
                 w \<leftarrow> xat4 (weights obj) p0 p1 p2 offset_index;
                 Some (e + w)
               }
               else Some e
             }
             else Some e
           }) [0..<n_offsets obj] e
         }) [0..<shape obj ! 2] e) [0..<shape obj ! 1] e) [0..<shape obj ! 0] 0"

text \<open>
  Well-formed inputs: the shapes the constructor and the callers agree on.  The
  objective has \<open>DIM\<close> grid axes, its weights have the offset axis last, its offsets are
  a matrix with one row per offset, and a labeling has the grid's shape.
\<close>

definition wf_objective :: "nat \<Rightarrow> objective \<Rightarrow> bool" where
  "wf_objective DIM obj =
     (length (shape obj) = DIM \<and>
      xshape (weights obj) = shape obj @ [n_offsets obj] \<and> wf_tensor (weights obj) \<and>
      xshape (offsets obj) = [n_offsets obj, DIM] \<and> wf_tensor (offsets obj) \<and>
      n_variables obj = prod_list (shape obj))"

definition wf_labels :: "objective \<Rightarrow> nat xtensor \<Rightarrow> bool" where
  "wf_labels obj labels = (xshape labels = shape obj \<and> wf_tensor labels)"

text \<open>Candidates stacked along a trailing axis: the grid's shape and one more axis.\<close>

definition wf_stack :: "objective \<Rightarrow> nat xtensor \<Rightarrow> bool" where
  "wf_stack obj labels =
     (xshape labels \<noteq> [] \<and> butlast (xshape labels) = shape obj \<and> wf_tensor labels)"

text \<open>
  The energy in the spec's words: the sum, over all grid positions \<open>p\<close> and offset
  indices \<open>k\<close>, of \<open>weight(p, k)\<close> taken exactly when \<open>q = p + offset_k\<close> is inside
  the grid and the labels of \<open>p\<close> and \<open>q\<close> differ.
\<close>

definition energy2_spec :: "objective \<Rightarrow> nat xtensor \<Rightarrow> real" where
  "energy2_spec obj L =
     (\<Sum>p0<shape obj ! 0. \<Sum>p1<shape obj ! 1. \<Sum>k<n_offsets obj.
        let q0 = int p0 + the (xat2 (offsets obj) k 0);
            q1 = int p1 + the (xat2 (offsets obj) k 1)
        in if 0 \<le> q0 \<and> q0 < int (shape obj ! 0) \<and> 0 \<le> q1 \<and> q1 < int (shape obj ! 1)
              \<and> the (xat2 L p0 p1) \<noteq> the (xat2 L (nat q0) (nat q1))
           then the (xat3 (weights obj) p0 p1 k) else 0)"

definition energy3_spec :: "objective \<Rightarrow> nat xtensor \<Rightarrow> real" where
  "energy3_spec obj L =
     (\<Sum>p0<shape obj ! 0. \<Sum>p1<shape obj ! 1. \<Sum>p2<shape obj ! 2. \<Sum>k<n_offsets obj.
        let q0 = int p0 + the (xat2 (offsets obj) k 0);
            q1 = int p1 + the (xat2 (offsets obj) k 1);
            q2 = int p2 + the (xat2 (offsets obj) k 2)
        in if 0 \<le> q0 \<and> q0 < int (shape obj ! 0) \<and> 0 \<le> q1 \<and> q1 < int (shape obj ! 1)
              \<and> 0 \<le> q2 \<and> q2 < int (shape obj ! 2)
              \<and> the (xat3 L p0 p1 p2) \<noteq> the (xat3 L (nat q0) (nat q1) (nat q2))
           then the (xat4 (weights obj) p0 p1 p2 k) else 0)"

section \<open>The disjoint-set engine\<close>

text \<open>
  Modelled from the spec: \<open>nifty::ufd::Ufd\<close> (\<open>nifty/ufd/ufd.hxx\<close>), which the
  fusion engine includes and whose source is not part of the material.  The spec gives
  parent and rank arrays indexed by node id, \<open>construct(n)\<close> creating \<open>n\<close> singleton
  sets, \<open>find\<close> returning the root and compressing the path, \<open>merge\<close> uniting by
  rank, a live set count, \<open>reset\<close>, and \<open>representativeLabeling\<close> mapping the
  roots, in increasing order, to \<open>0, 1, 2, ...\<close>; an id out of range makes the
  operation fail.

  The walk to the root is a loop with no bound in an array that could hold a cycle, so
  the model walks with fuel, one more than the number of elements, and fails when the
  fuel runs out; \<open>ufd_find_total\<close> below shows that this fuel always suffices in a
  forest built by \<open>ufd_construct\<close> and \<open>ufd_merge\<close>.
\<close>

record ufd =
  parents :: "nat list"
  ranks :: "nat list"
  numberOfSets :: nat

definition ufd_construct :: "nat \<Rightarrow> ufd" where
  "ufd_construct n = \<lparr> parents = [0..<n], ranks = replicate n 0, numberOfSets = n \<rparr>"

definition ufd_reset :: "ufd \<Rightarrow> ufd" where
  "ufd_reset u = ufd_construct (length (parents u))"

fun find_root :: "nat \<Rightarrow> nat list \<Rightarrow> nat \<Rightarrow> nat option" where
  "find_root 0 ps x = None"
| "find_root (Suc fuel) ps x =
     (if x < length ps
      then (if ps ! x = x then Some x else find_root fuel ps (ps ! x))
      else None)"

fun compress :: "nat \<Rightarrow> nat list \<Rightarrow> nat \<Rightarrow> nat \<Rightarrow> nat list option" where
  "compress 0 ps x r = None"
| "compress (Suc fuel) ps x r =
     (if x = r then Some ps
      else if x < length ps then compress fuel (ps[x := r]) (ps ! x) r
      else None)"

definition ufd_find :: "ufd \<Rightarrow> nat \<Rightarrow> (nat \<times> ufd) option" where
  "ufd_find u x = do {
     r \<leftarrow> find_root (Suc (length (parents u))) (parents u) x;
     ps \<leftarrow> compress (Suc (length (parents u))) (parents u) x r;
     Some (r, u\<lparr>parents := ps\<rparr>)
   }"

definition ufd_merge :: "ufd \<Rightarrow> nat \<Rightarrow> nat \<Rightarrow> ufd option" where
  "ufd_merge u x y = do {
     (rx, u1) \<leftarrow> ufd_find u x;
     (ry, u2) \<leftarrow> ufd_find u1 y;
     if rx = ry then Some u2
     else if ranks u2 ! rx < ranks u2 ! ry
     then Some (u2\<lparr>parents := (parents u2)[rx := ry], numberOfSets := numberOfSets u2 - 1\<rparr>)
     else if ranks u2 ! ry < ranks u2 ! rx
     then Some (u2\<lparr>parents := (parents u2)[ry := rx], numberOfSets := numberOfSets u2 - 1\<rparr>)
     else Some (u2\<lparr>parents := (parents u2)[ry := rx],
                    ranks := (ranks u2)[rx := ranks u2 ! rx + 1],
                    numberOfSets := numberOfSets u2 - 1\<rparr>)
   }"

definition representativeLabeling :: "ufd \<Rightarrow> (nat \<times> nat) list" where
  "representativeLabeling u =
     (let roots = filter (\<lambda>j. parents u ! j = j) [0..<length (parents u)]
      in zip roots [0..<length roots])"

text \<open>
  \<open>to_dense[key]\<close> on the \<open>boost::container::flat_map\<close> filled by
  \<open>representativeLabeling\<close>: a key that is absent is inserted with the value \<open>0\<close>,
  which later lookups of that key return again, so the map itself need not change.
\<close>

definition to_dense_at :: "(nat \<times> nat) list \<Rightarrow> nat \<Rightarrow> nat" where
  "to_dense_at to_dense key = (case map_of to_dense key of Some v \<Rightarrow> v | None \<Rightarrow> 0)"

section \<open>The contracted graph and its lifted objective\<close>

text \<open>
  Modelled from the spec: \<open>nifty::graph::UndirectedGraph\<close> and
  \<open>LiftedMulticutObjective\<close>, whose sources are not part of the material.  The spec
  gives a graph whose nodes are the dense components and whose plain edges carry
  structure only, and a lifted objective in which \<open>setCost\<close> adds the weight to the
  lifted edge between two nodes, summing when several grid edges collapse onto the
  same pair; the energy of a node labeling is the sum of the weights of the lifted
  edges whose end points carry different labels.  An edge is an unordered pair, kept
  as (smaller, larger).
\<close>

record cc_graph =
  numberOfNodes :: nat
  edges :: "(nat \<times> nat) list"

definition UndirectedGraph :: "nat \<Rightarrow> cc_graph" where
  "UndirectedGraph n = \<lparr> numberOfNodes = n, edges = [] \<rparr>"

definition insertEdge :: "cc_graph \<Rightarrow> nat \<Rightarrow> nat \<Rightarrow> cc_graph" where
  "insertEdge g u v =
     (let e = (min u v, max u v)
      in if e \<in> set (edges g) then g else g\<lparr>edges := edges g @ [e]\<rparr>)"

record cc_objective =
  graph :: cc_graph
  lifted :: "((nat \<times> nat) \<times> real) list"

definition LiftedMulticutObjective :: "cc_graph \<Rightarrow> cc_objective" where
  "LiftedMulticutObjective g = \<lparr> graph = g, lifted = [] \<rparr>"

fun add_cost :: "(nat \<times> nat) \<Rightarrow> real \<Rightarrow> ((nat \<times> nat) \<times> real) list
                 \<Rightarrow> ((nat \<times> nat) \<times> real) list" where
  "add_cost e w [] = [(e, w)]"
| "add_cost e w ((e', w') # rest) =
     (if e' = e then (e', w' + w) # rest else (e', w') # add_cost e w rest)"

definition setCost :: "cc_objective \<Rightarrow> nat \<Rightarrow> nat \<Rightarrow> real \<Rightarrow> cc_objective" where
  "setCost obj u v w = obj\<lparr>lifted := add_cost (min u v, max u v) w (lifted obj)\<rparr>"

definition nth_opt :: "'a list \<Rightarrow> nat \<Rightarrow> 'a option" where
  "nth_opt xs i = (if i < length xs then Some (xs ! i) else None)"

definition evalNodeLabels :: "cc_objective \<Rightarrow> nat list \<Rightarrow> real option" where
  "evalNodeLabels obj node_labels =
     foldM (\<lambda>((u, v), w) e. do {
       lu \<leftarrow> nth_opt node_labels u;
       lv \<leftarrow> nth_opt node_labels v;
       Some (if lu \<noteq> lv then e + w else e)
     }) (lifted obj) 0"

section \<open>Single precision\<close>

text \<open>
  The values of the type \<open>float\<close>: the finite ones and the two infinities (a real
  number never narrows to a NaN).  \<open>to_float\<close> is the conversion of a \<open>double\<close> to
  \<open>float\<close> under the default rounding: to the nearest value with a 24-bit significand
  and an exponent from \<open>-126\<close> to \<open>127\<close> (or a multiple of \<open>2^-149\<close> below
  \<open>2^-126\<close>), a tie to the one whose significand is even, and to an infinity when the
  rounded magnitude reaches \<open>2^128\<close>.  The argument is the exact real that stands
  for the \<open>double\<close>.

  \<open>bit_length n\<close> is the number of binary digits of a positive integer.  With \<open>y\<close>
  the magnitude in units of \<open>2^-149\<close>, the spacing of the single-precision values
  around \<open>y\<close> is \<open>2^k\<close> units, \<open>k\<close> being the number of digits of the integer part of
  \<open>y\<close> beyond 24.
\<close>

datatype float32 = Finite real | PlusInf | MinusInf

function bit_length :: "int \<Rightarrow> nat" where
  "bit_length n = (if n \<le> 0 then 0 else Suc (bit_length (n div 2)))"
  by auto
termination by (relation "measure nat") auto

declare bit_length.simps [simp del]

definition round_half_even :: "real \<Rightarrow> int" where
  "round_half_even x =
     (let f = \<lfloor>x\<rfloor>; r = x - of_int f
      in if r < 1 / 2 then f else if 1 / 2 < r then f + 1
         else if even f then f else f + 1)"

definition to_float :: "real \<Rightarrow> float32" where
  "to_float x =
     (let y = \<bar>x\<bar> * 2 ^ 149;
          k = bit_length \<lfloor>y\<rfloor> - 24;
          m = of_int (round_half_even (y / 2 ^ k)) * 2 ^ k / 2 ^ 149
      in if 2 ^ 128 \<le> m then (if x < 0 then MinusInf else PlusInf)
         else Finite (if x < 0 then - m else m))"

text \<open>
  \<open>e < best_e\<close> with a \<open>double\<close> on the left and a \<open>float\<close> on the right: the
  \<open>float\<close> is widened to \<open>double\<close>, which changes no value.
\<close>

definition less_best :: "real \<Rightarrow> float32 \<Rightarrow> bool" where
  "less_best e best_e =
     (case best_e of Finite b \<Rightarrow> e < b | PlusInf \<Rightarrow> True | MinusInf \<Rightarrow> False)"

section \<open>The fusion engine, two grid axes\<close>

text \<open>
  \<open>PixelWiseLmcConnetedComponentsFusion<2>\<close>.  The solver factory and the solver it
  creates are external: \<open>self_solver_fatory\<close> (the member \<open>solver_fatory_\<close>) is, for a contracted objective and the
  freshly created node-label array, what \<open>solver->optimize\<close> leaves in that array,
  or \<open>None\<close> when the factory or the solver raises.
\<close>

record fusion =
  self_objective :: objective
  self_ufd :: ufd
  self_solver_fatory :: "cc_objective \<Rightarrow> nat list \<Rightarrow> nat list option"

definition PixelWiseLmcConnetedComponentsFusion ::
  "objective \<Rightarrow> (cc_objective \<Rightarrow> nat list \<Rightarrow> nat list option) \<Rightarrow> fusion" where
  "PixelWiseLmcConnetedComponentsFusion objective solver_fatory =
     \<lparr> self_objective = objective,
       self_ufd = ufd_construct (n_variables objective),
       self_solver_fatory = solver_fatory \<rparr>"

definition upd_opt :: "'a list \<Rightarrow> nat \<Rightarrow> 'a \<Rightarrow> 'a list option" where
  "upd_opt xs i v = (if i < length xs then Some (xs[i := v]) else None)"

text \<open>\<open>merge_ufd\<close>, two candidates.\<close>

definition fusion2_merge_ufd ::
  "objective \<Rightarrow> ufd \<Rightarrow> nat xtensor \<Rightarrow> nat xtensor \<Rightarrow> ufd option" where
  "fusion2_merge_ufd obj u0 labels_a labels_b = do {
     (node_p, u) \<leftarrow>
       foldM (\<lambda>p0. foldM (\<lambda>p1 (node_p, u). do {
         p_label_a \<leftarrow> xat2 labels_a p0 p1;
         p_label_b \<leftarrow> xat2 labels_b p0 p1;
         u \<leftarrow> (if p0 + 1 < shape obj ! 0 then do {
                 q_label_a \<leftarrow> xat2 labels_a (p0 + 1) p1;
                 q_label_b \<leftarrow> xat2 labels_b (p0 + 1) p1;
                 if p_label_a = q_label_a \<and> p_label_b = q_label_b
                 then ufd_merge u node_p (node_p + shape obj ! 1)
                 else Some u
               } else Some u);
         u \<leftarrow> (if p1 + 1 < shape obj ! 1 then do {
                 q_label_a \<leftarrow> xat2 labels_a p0 (p1 + 1);
                 q_label_b \<leftarrow> xat2 labels_b p0 (p1 + 1);
                 if p_label_a = q_label_a \<and> p_label_b = q_label_b
                 then ufd_merge u node_p (node_p + 1)
                 else Some u
               } else Some u);
         Some (node_p + 1, u)
       }) [0..<shape obj ! 1]) [0..<shape obj ! 0] (0, u0);
     Some u
   }"

text \<open>
  The inner loop of \<open>merge_ufd2\<close> over the stacked candidates: \<open>do_merge\<close> starts
  true and the first candidate whose labels differ sets it to false and leaves the loop.
\<close>

fun do_merge_loop :: "(nat \<Rightarrow> (nat \<times> nat) option) \<Rightarrow> nat list \<Rightarrow> bool option" where
  "do_merge_loop rd [] = Some True"
| "do_merge_loop rd (c # cs) = do {
     (p_label, q_label) \<leftarrow> rd c;
     if p_label \<noteq> q_label then Some False else do_merge_loop rd cs
   }"

text \<open>\<open>merge_ufd2\<close>, candidates stacked along a trailing axis.\<close>

definition fusion2_merge_ufd2 :: "objective \<Rightarrow> ufd \<Rightarrow> nat xtensor \<Rightarrow> ufd option" where
  "fusion2_merge_ufd2 obj u0 labels = do {
     n_offsets \<leftarrow> nth_opt (xshape labels) 2;
     (node_p, u) \<leftarrow>
       foldM (\<lambda>p0. foldM (\<lambda>p1 (node_p, u). do {
         u \<leftarrow> (if p0 + 1 < shape obj ! 0 then do {
                 do_merge \<leftarrow> do_merge_loop (\<lambda>c. do {
                   p_label \<leftarrow> xat3 labels p0 p1 c;
                   q_label \<leftarrow> xat3 labels (p0 + 1) p1 c;
                   Some (p_label, q_label)
                 }) [0..<n_offsets];
                 if do_merge then ufd_merge u node_p (node_p + shape obj ! 1) else Some u
               } else Some u);
         u \<leftarrow> (if p1 + 1 < shape obj ! 1 then do {
                 do_merge \<leftarrow> do_merge_loop (\<lambda>c. do {
                   p_label \<leftarrow> xat3 labels p0 p1 c;
                   q_label \<leftarrow> xat3 labels p0 (p1 + 1) c;
                   Some (p_label, q_label)
                 }) [0..<n_offsets];
                 if do_merge then ufd_merge u node_p (node_p + 1) else Some u
               } else Some u);
         Some (node_p + 1, u)
       }) [0..<shape obj ! 1]) [0..<shape obj ! 0] (0, u0);
     Some u
   }"

text \<open>
  \<open>_build_\<close>, in the order of the source: the dense relabel into \<open>res\<close>, the
  plain edges of the contracted graph, the lifted objective, and the solver.  Each
  block of the source is a definition of its own here; the last, the call of the
  solver, is the same text in both specialisations and is shared.

  The source ends by calling the callback \<open>f\<close> with the solver's node labels and
  their energy on the contracted objective; the model returns these two (with the
  forest, \<open>res\<close> and the contracted objective) and the caller applies \<open>f\<close>.  The
  node-label array is created with one entry per node of the contracted graph.
\<close>

definition dense_relabel ::
  "objective \<Rightarrow> (nat \<times> nat) list \<Rightarrow> ufd \<Rightarrow> nat list \<Rightarrow> (ufd \<times> nat list) option" where
  "dense_relabel obj to_dense u0 res_data0 =
     foldM (\<lambda>var (u, d). do {
       (r, u) \<leftarrow> ufd_find u var;
       d \<leftarrow> upd_opt d var (to_dense_at to_dense r);
       Some (u, d)
     }) [0..<n_variables obj] (u0, res_data0)"

definition fusion2_insert_edges ::
  "objective \<Rightarrow> (nat \<times> nat) list \<Rightarrow> ufd \<Rightarrow> cc_graph \<Rightarrow> (nat \<times> ufd \<times> cc_graph) option" where
  "fusion2_insert_edges obj to_dense u0 cc_graph0 =
     foldM (\<lambda>p0. foldM (\<lambda>p1 (node_p, u, cc_graph). do {
       (p_label, u) \<leftarrow> ufd_find u node_p;
       (u, cc_graph) \<leftarrow> (if p0 + 1 < shape obj ! 0 then do {
           let node_q = node_p + shape obj ! 1;
           (q_label, u) \<leftarrow> ufd_find u node_q;
           Some (u, if p_label \<noteq> q_label
                    then insertEdge cc_graph (to_dense_at to_dense p_label)
                                             (to_dense_at to_dense q_label)
                    else cc_graph)
         } else Some (u, cc_graph));
       (u, cc_graph) \<leftarrow> (if p1 + 1 < shape obj ! 1 then do {
           let node_q = node_p + 1;
           (q_label, u) \<leftarrow> ufd_find u node_q;
           Some (u, if p_label \<noteq> q_label
                    then insertEdge cc_graph (to_dense_at to_dense p_label)
                                             (to_dense_at to_dense q_label)
                    else cc_graph)
         } else Some (u, cc_graph));
       Some (node_p + 1, u, cc_graph)
     }) [0..<shape obj ! 1]) [0..<shape obj ! 0] (0, u0, cc_graph0)"

definition fusion2_fill_lifted ::
  "objective \<Rightarrow> (nat \<times> nat) list \<Rightarrow> ufd \<Rightarrow> cc_objective
   \<Rightarrow> (nat \<times> ufd \<times> cc_objective) option" where
  "fusion2_fill_lifted obj to_dense u0 cc_obj0 =
     foldM (\<lambda>p0. foldM (\<lambda>p1 (node_p, u, cc_obj). do {
       (p_label, u) \<leftarrow> ufd_find u node_p;
       (u, cc_obj) \<leftarrow>
         foldM (\<lambda>offset_index (u, cc_obj). do {
           o0 \<leftarrow> xat2 (offsets obj) offset_index 0;
           o1 \<leftarrow> xat2 (offsets obj) offset_index 1;
           let q0 = int p0 + o0;
           let q1 = int p1 + o1;
           if q0 \<ge> 0 \<and> q0 < int (shape obj ! 0) \<and> q1 \<ge> 0 \<and> q1 < int (shape obj ! 1)
           then do {
             let node_q = nat (q0 * int (shape obj ! 1) + q1);
             (q_label, u) \<leftarrow> ufd_find u node_q;
             if p_label \<noteq> q_label
             then do {
               w \<leftarrow> xat3 (weights obj) p0 p1 offset_index;
               Some (u, setCost cc_obj (to_dense_at to_dense p_label)
                                       (to_dense_at to_dense q_label) w)
             }
             else Some (u, cc_obj)
           }
           else Some (u, cc_obj)
         }) [0..<n_offsets obj] (u, cc_obj);
       Some (node_p + 1, u, cc_obj)
     }) [0..<shape obj ! 1]) [0..<shape obj ! 0] (0, u0, cc_obj0)"

definition run_solver ::
  "(cc_objective \<Rightarrow> nat list \<Rightarrow> nat list option) \<Rightarrow> cc_objective
   \<Rightarrow> (nat list \<times> real) option" where
  "run_solver solver_fatory cc_obj = do {
     cc_node_labels \<leftarrow> solver_fatory cc_obj (replicate (numberOfNodes (graph cc_obj)) 0);
     e_res \<leftarrow> evalNodeLabels cc_obj cc_node_labels;
     Some (cc_node_labels, e_res)
   }"

definition fusion2_build ::
  "objective \<Rightarrow> (cc_objective \<Rightarrow> nat list \<Rightarrow> nat list option) \<Rightarrow> ufd \<Rightarrow> nat xtensor
   \<Rightarrow> (ufd \<times> nat xtensor \<times> cc_objective \<times> nat list \<times> real) option" where
  "fusion2_build obj solver_fatory u0 res0 = do {
     let cc_n_variables = numberOfSets u0;
     let to_dense = representativeLabeling u0;
     (u, res_data) \<leftarrow> dense_relabel obj to_dense u0 (xdata res0);
     let res = res0\<lparr>xdata := res_data\<rparr>;
     (node_p, u, cc_graph) \<leftarrow>
       fusion2_insert_edges obj to_dense u (UndirectedGraph cc_n_variables);
     (node_p, u, cc_obj) \<leftarrow>
       fusion2_fill_lifted obj to_dense u (LiftedMulticutObjective cc_graph);
     (cc_node_labels, e_res) \<leftarrow> run_solver solver_fatory cc_obj;
     Some (u, res, cc_obj, cc_node_labels, e_res)
   }"

text \<open>
  The two ways the callbacks fill \<open>res\<close>: every entry, which holds a dense component
  id, is replaced by the solver's label of that component; or a candidate is copied
  over \<open>res\<close> with \<open>std::copy\<close>.
\<close>

definition materialize :: "objective \<Rightarrow> nat list \<Rightarrow> nat xtensor \<Rightarrow> nat xtensor option" where
  "materialize obj cc_node_labels res = do {
     d \<leftarrow> foldM (\<lambda>var d. do {
            dense_var \<leftarrow> nth_opt d var;
            l \<leftarrow> nth_opt cc_node_labels dense_var;
            upd_opt d var l
          }) [0..<n_variables obj] (xdata res);
     Some (res\<lparr>xdata := d\<rparr>)
   }"

definition copy_into :: "nat xtensor \<Rightarrow> nat xtensor \<Rightarrow> nat xtensor option" where
  "copy_into src res =
     (if length (xdata src) \<le> length (xdata res)
      then Some (res\<lparr>xdata := xdata src @ drop (length (xdata src)) (xdata res)\<rparr>)
      else None)"

text \<open>
  The callback that the two-candidate \<open>fuse\<close> passes to \<open>_build_\<close>.  It
  captures the candidates and their energies.
\<close>

definition fuse_callback ::
  "objective \<Rightarrow> nat xtensor \<Rightarrow> nat xtensor \<Rightarrow> real \<Rightarrow> real \<Rightarrow> nat list \<Rightarrow> real
   \<Rightarrow> nat xtensor \<Rightarrow> nat xtensor option" where
  "fuse_callback obj labels_a labels_b e_a e_b cc_node_labels cc_energy res =
     (if cc_energy < min e_a e_b then materialize obj cc_node_labels res
      else if e_a < e_b then copy_into labels_a res
      else copy_into labels_b res)"

text \<open>
  \<open>fuse\<close>, two candidates.  \<open>res\<close> is allocated with the grid's shape without
  being initialised; every entry is written by \<open>_build_\<close> before it is read, so the
  model starts it with zeros.
\<close>

definition alloc_res :: "nat list \<Rightarrow> nat xtensor" where
  "alloc_res reshape = \<lparr> xshape = reshape, xdata = replicate (prod_list reshape) 0 \<rparr>"

definition fusion2_fuse ::
  "fusion \<Rightarrow> nat xtensor \<Rightarrow> nat xtensor \<Rightarrow> (nat xtensor \<times> fusion) option" where
  "fusion2_fuse self labels_a labels_b = do {
     let obj = self_objective self;
     let u = ufd_reset (self_ufd self);
     let res = alloc_res [shape obj ! 0, shape obj ! 1];
     u \<leftarrow> fusion2_merge_ufd obj u labels_a labels_b;
     e_a \<leftarrow> evaluate2 obj labels_a;
     e_b \<leftarrow> evaluate2 obj labels_b;
     (u, res, cc_obj, cc_node_labels, cc_energy) \<leftarrow>
       fusion2_build obj (self_solver_fatory self) u res;
     res \<leftarrow> fuse_callback obj labels_a labels_b e_a e_b cc_node_labels cc_energy res;
     Some (res, self\<lparr>self_ufd := u\<rparr>)
   }"

text \<open>
  A view of a stacked tensor with the trailing index fixed: \<open>xt::view(labels, xt::all(),
  ..., i)\<close>.
\<close>

definition xview :: "'a xtensor \<Rightarrow> nat \<Rightarrow> 'a xtensor option" where
  "xview t i =
     (if xshape t \<noteq> [] \<and> i < last (xshape t)
         \<and> length (xdata t) = prod_list (xshape t)
      then Some \<lparr> xshape = butlast (xshape t),
                  xdata = map (\<lambda>p. xdata t ! (p * last (xshape t) + i))
                              [0..<prod_list (butlast (xshape t))] \<rparr>
      else None)"

text \<open>
  The best candidate of the K-candidate form: the loop over the proposals, with the
  objective's \<open>evaluate\<close> as a parameter, since the loops of the two
  specialisations differ in nothing else.  \<open>best_e\<close> is declared by
  \<open>auto best_e = std::numeric_limits<float>::infinity()\<close> and so is a \<open>float\<close>:
  the assignment \<open>best_e = e\<close> narrows the energy.
\<close>

definition best_proposal ::
  "(nat xtensor \<Rightarrow> real option) \<Rightarrow> nat xtensor \<Rightarrow> nat \<Rightarrow> (float32 \<times> nat) option" where
  "best_proposal evaluate labels n_proposals =
     foldM (\<lambda>i (best_e, best_i). do {
       l \<leftarrow> xview labels i;
       e \<leftarrow> evaluate l;
       Some (if less_best e best_e then (to_float e, i) else (best_e, best_i))
     }) [0..<n_proposals] (PlusInf, 0)"

text \<open>
  The energy of the \<open>i\<close>-th stacked candidate, and the callback that the
  K-candidate \<open>fuse\<close> passes to \<open>_build_\<close>.
\<close>

definition cand_energy ::
  "(nat xtensor \<Rightarrow> real option) \<Rightarrow> nat xtensor \<Rightarrow> nat \<Rightarrow> real option" where
  "cand_energy evaluate labels i = Option.bind (xview labels i) evaluate"

definition fuse_k_callback ::
  "objective \<Rightarrow> nat xtensor \<Rightarrow> nat list \<Rightarrow> real \<Rightarrow> nat xtensor \<Rightarrow> nat xtensor option" where
  "fuse_k_callback obj labels cc_node_labels cc_energy res = do {
     n_proposals \<leftarrow> nth_opt (xshape labels) 2;
     (best_e, best_i) \<leftarrow> best_proposal (evaluate2 obj) labels n_proposals;
     if less_best cc_energy best_e then materialize obj cc_node_labels res
     else do { l \<leftarrow> xview labels best_i; copy_into l res }
   }"

text \<open>\<open>fuse\<close>, candidates stacked along a trailing axis.\<close>

definition fusion2_fuse_k ::
  "fusion \<Rightarrow> nat xtensor \<Rightarrow> (nat xtensor \<times> fusion) option" where
  "fusion2_fuse_k self labels = do {
     let obj = self_objective self;
     let u = ufd_reset (self_ufd self);
     let res = alloc_res [shape obj ! 0, shape obj ! 1];
     u \<leftarrow> fusion2_merge_ufd2 obj u labels;
     (u, res, cc_obj, cc_node_labels, cc_energy) \<leftarrow>
       fusion2_build obj (self_solver_fatory self) u res;
     res \<leftarrow> fuse_k_callback obj labels cc_node_labels cc_energy res;
     Some (res, self\<lparr>self_ufd := u\<rparr>)
   }"

section \<open>The fusion engine, three grid axes\<close>

text \<open>
  \<open>PixelWiseLmcConnetedComponentsFusion<3>\<close>, as written in the source.  The result
  tensor of this specialisation is an \<open>xt::xtensor<int, 3>\<close> (that of the two-axis
  engine holds \<open>uint64_t\<close>): every value stored in it, a dense component id, a node
  label of the solver or a copied candidate label, is an unsigned 64-bit value
  narrowed to \<open>int\<close>, which keeps its low 32 bits in two's complement.  An entry read
  back as an index is an \<open>int\<close>; a negative one addresses no element.
\<close>

definition int32_of_nat :: "nat \<Rightarrow> int" where
  "int32_of_nat n = (int n + 2 ^ 31) mod 2 ^ 32 - 2 ^ 31"

text \<open>\<open>merge_ufd\<close>, two candidates.\<close>

definition fusion3_merge_ufd ::
  "objective \<Rightarrow> ufd \<Rightarrow> nat xtensor \<Rightarrow> nat xtensor \<Rightarrow> ufd option" where
  "fusion3_merge_ufd obj u0 labels_a labels_b = do {
     (node_p, u) \<leftarrow>
       foldM (\<lambda>p0. foldM (\<lambda>p1. foldM (\<lambda>p2 (node_p, u). do {
         p_label_a \<leftarrow> xat3 labels_a p0 p1 p2;
         p_label_b \<leftarrow> xat3 labels_b p0 p1 p2;
         u \<leftarrow> (if p0 + 1 < shape obj ! 0 then do {
                 q_label_a \<leftarrow> xat3 labels_a (p0 + 1) p1 p2;
                 q_label_b \<leftarrow> xat3 labels_b (p0 + 1) p1 p2;
                 if p_label_a = q_label_a \<and> p_label_b = q_label_b
                 then ufd_merge u node_p (node_p + shape obj ! 1 * shape obj ! 2)
                 else Some u
               } else Some u);
         u \<leftarrow> (if p1 + 1 < shape obj ! 1 then do {
                 q_label_a \<leftarrow> xat3 labels_a p0 (p1 + 1) p2;
                 q_label_b \<leftarrow> xat3 labels_b p0 (p1 + 1) p2;
                 if p_label_a = q_label_a \<and> p_label_b = q_label_b
                 then ufd_merge u node_p (node_p + shape obj ! 2)
                 else Some u
               } else Some u);
         u \<leftarrow> (if p2 + 1 < shape obj ! 2 then do {
                 q_label_a \<leftarrow> xat3 labels_a p0 p1 (p2 + 1);
                 q_label_b \<leftarrow> xat3 labels_b p0 p1 (p2 + 1);
                 if p_label_a = q_label_a \<and> p_label_b = q_label_b
                 then ufd_merge u node_p (node_p + 1)
                 else Some u
               } else Some u);
         Some (node_p + 1, u)
       }) [0..<shape obj ! 2]) [0..<shape obj ! 1]) [0..<shape obj ! 0] (0, u0);
     Some u
   }"

text \<open>
  \<open>merge_ufd2\<close>, candidates stacked along a trailing axis.  The node offsets and the
  labels compared in the third block are those of the source.
\<close>

definition fusion3_merge_ufd2 :: "objective \<Rightarrow> ufd \<Rightarrow> nat xtensor \<Rightarrow> ufd option" where
  "fusion3_merge_ufd2 obj u0 labels = do {
     n_offsets \<leftarrow> nth_opt (xshape labels) 3;
     (node_p, u) \<leftarrow>
       foldM (\<lambda>p0. foldM (\<lambda>p1. foldM (\<lambda>p2 (node_p, u). do {
         u \<leftarrow> (if p0 + 1 < shape obj ! 0 then do {
                 do_merge \<leftarrow> do_merge_loop (\<lambda>c. do {
                   p_label \<leftarrow> xat4 labels p0 p1 p2 c;
                   q_label \<leftarrow> xat4 labels (p0 + 1) p1 p2 c;
                   Some (p_label, q_label)
                 }) [0..<n_offsets];
                 if do_merge then ufd_merge u node_p (node_p + shape obj ! 2) else Some u
               } else Some u);
         u \<leftarrow> (if p1 + 1 < shape obj ! 1 then do {
                 do_merge \<leftarrow> do_merge_loop (\<lambda>c. do {
                   p_label \<leftarrow> xat4 labels p0 p1 p2 c;
                   q_label \<leftarrow> xat4 labels p0 (p1 + 1) p2 c;
                   Some (p_label, q_label)
                 }) [0..<n_offsets];
                 if do_merge then ufd_merge u node_p (node_p + 1) else Some u
               } else Some u);
         u \<leftarrow> (if p2 + 1 < shape obj ! 2 then do {
                 do_merge \<leftarrow> do_merge_loop (\<lambda>c. do {
                   p_label \<leftarrow> xat4 labels p0 p1 p2 c;
                   q_label \<leftarrow> xat4 labels p0 (p1 + 1) p2 c;
                   Some (p_label, q_label)
                 }) [0..<n_offsets];
                 if do_merge then ufd_merge u node_p (node_p + 1) else Some u
               } else Some u);
         Some (node_p + 1, u)
       }) [0..<shape obj ! 2]) [0..<shape obj ! 1]) [0..<shape obj ! 0] (0, u0);
     Some u
   }"

text \<open>
  \<open>_build_\<close>.  The innermost loop of the lifted fill runs \<open>p2\<close> up to
  \<open>shape[1]\<close>, as the source does.
\<close>

definition fusion3_insert_edges ::
  "objective \<Rightarrow> (nat \<times> nat) list \<Rightarrow> ufd \<Rightarrow> cc_graph \<Rightarrow> (nat \<times> ufd \<times> cc_graph) option" where
  "fusion3_insert_edges obj to_dense u0 cc_graph0 =
     foldM (\<lambda>p0. foldM (\<lambda>p1. foldM (\<lambda>p2 (node_p, u, cc_graph). do {
       (p_label, u) \<leftarrow> ufd_find u node_p;
       (u, cc_graph) \<leftarrow> (if p0 + 1 < shape obj ! 0 then do {
           let node_q = node_p + shape obj ! 1 * shape obj ! 2;
           (q_label, u) \<leftarrow> ufd_find u node_q;
           Some (u, if p_label \<noteq> q_label
                    then insertEdge cc_graph (to_dense_at to_dense p_label)
                                             (to_dense_at to_dense q_label)
                    else cc_graph)
         } else Some (u, cc_graph));
       (u, cc_graph) \<leftarrow> (if p1 + 1 < shape obj ! 1 then do {
           let node_q = node_p + shape obj ! 2;
           (q_label, u) \<leftarrow> ufd_find u node_q;
           Some (u, if p_label \<noteq> q_label
                    then insertEdge cc_graph (to_dense_at to_dense p_label)
                                             (to_dense_at to_dense q_label)
                    else cc_graph)
         } else Some (u, cc_graph));
       (u, cc_graph) \<leftarrow> (if p2 + 1 < shape obj ! 2 then do {
           let node_q = node_p + 1;
           (q_label, u) \<leftarrow> ufd_find u node_q;
           Some (u, if p_label \<noteq> q_label
                    then insertEdge cc_graph (to_dense_at to_dense p_label)
                                             (to_dense_at to_dense q_label)
                    else cc_graph)
         } else Some (u, cc_graph));
       Some (node_p + 1, u, cc_graph)
     }) [0..<shape obj ! 2]) [0..<shape obj ! 1]) [0..<shape obj ! 0] (0, u0, cc_graph0)"

definition fusion3_fill_lifted ::
  "objective \<Rightarrow> (nat \<times> nat) list \<Rightarrow> ufd \<Rightarrow> cc_objective
   \<Rightarrow> (nat \<times> ufd \<times> cc_objective) option" where
  "fusion3_fill_lifted obj to_dense u0 cc_obj0 =
     foldM (\<lambda>p0. foldM (\<lambda>p1. foldM (\<lambda>p2 (node_p, u, cc_obj). do {
       (p_label, u) \<leftarrow> ufd_find u node_p;
       (u, cc_obj) \<leftarrow>
         foldM (\<lambda>offset_index (u, cc_obj). do {
           o0 \<leftarrow> xat2 (offsets obj) offset_index 0;
           o1 \<leftarrow> xat2 (offsets obj) offset_index 1;
           o2 \<leftarrow> xat2 (offsets obj) offset_index 2;
           let q0 = int p0 + o0;
           let q1 = int p1 + o1;
           let q2 = int p2 + o2;
           if q0 \<ge> 0 \<and> q0 < int (shape obj ! 0) \<and>
              q1 \<ge> 0 \<and> q1 < int (shape obj ! 1) \<and>
              q2 \<ge> 0 \<and> q2 < int (shape obj ! 2)
           then do {
             let node_q = nat (q0 * int (shape obj ! 1) * int (shape obj ! 2)
                               + q1 * int (shape obj ! 2) + q2);
             (q_label, u) \<leftarrow> ufd_find u node_q;
             if p_label \<noteq> q_label
             then do {
               w \<leftarrow> xat4 (weights obj) p0 p1 p2 offset_index;
               Some (u, setCost cc_obj (to_dense_at to_dense p_label)
                                       (to_dense_at to_dense q_label) w)
             }
             else Some (u, cc_obj)
           }
           else Some (u, cc_obj)
         }) [0..<n_offsets obj] (u, cc_obj);
       Some (node_p + 1, u, cc_obj)
     }) [0..<shape obj ! 1]) [0..<shape obj ! 1]) [0..<shape obj ! 0] (0, u0, cc_obj0)"

text \<open>
  \<open>_build_\<close>: the same blocks as for two axes, on the \<open>int\<close> result tensor.
\<close>

definition dense_relabel3 ::
  "objective \<Rightarrow> (nat \<times> nat) list \<Rightarrow> ufd \<Rightarrow> int list \<Rightarrow> (ufd \<times> int list) option" where
  "dense_relabel3 obj to_dense u0 res_data0 =
     foldM (\<lambda>var (u, d). do {
       (r, u) \<leftarrow> ufd_find u var;
       d \<leftarrow> upd_opt d var (int32_of_nat (to_dense_at to_dense r));
       Some (u, d)
     }) [0..<n_variables obj] (u0, res_data0)"

definition fusion3_build ::
  "objective \<Rightarrow> (cc_objective \<Rightarrow> nat list \<Rightarrow> nat list option) \<Rightarrow> ufd \<Rightarrow> int xtensor
   \<Rightarrow> (ufd \<times> int xtensor \<times> cc_objective \<times> nat list \<times> real) option" where
  "fusion3_build obj solver_fatory u0 res0 = do {
     let cc_n_variables = numberOfSets u0;
     let to_dense = representativeLabeling u0;
     (u, res_data) \<leftarrow> dense_relabel3 obj to_dense u0 (xdata res0);
     let res = res0\<lparr>xdata := res_data\<rparr>;
     (node_p, u, cc_graph) \<leftarrow>
       fusion3_insert_edges obj to_dense u (UndirectedGraph cc_n_variables);
     (node_p, u, cc_obj) \<leftarrow>
       fusion3_fill_lifted obj to_dense u (LiftedMulticutObjective cc_graph);
     (cc_node_labels, e_res) \<leftarrow> run_solver solver_fatory cc_obj;
     Some (u, res, cc_obj, cc_node_labels, e_res)
   }"

text \<open>
  The two ways the callbacks fill the \<open>int\<close> result: an entry, which holds a dense
  component id, is replaced by the solver's label of that component; or a candidate
  is copied over the result with \<open>std::copy\<close>, element by element.
\<close>

definition materialize3 :: "objective \<Rightarrow> nat list \<Rightarrow> int xtensor \<Rightarrow> int xtensor option" where
  "materialize3 obj cc_node_labels res = do {
     d \<leftarrow> foldM (\<lambda>var d. do {
            dense_var \<leftarrow> nth_opt d var;
            l \<leftarrow> (if 0 \<le> dense_var then nth_opt cc_node_labels (nat dense_var) else None);
            upd_opt d var (int32_of_nat l)
          }) [0..<n_variables obj] (xdata res);
     Some (res\<lparr>xdata := d\<rparr>)
   }"

definition copy_into3 :: "nat xtensor \<Rightarrow> int xtensor \<Rightarrow> int xtensor option" where
  "copy_into3 src res =
     (if length (xdata src) \<le> length (xdata res)
      then Some (res\<lparr>xdata := map int32_of_nat (xdata src)
                                @ drop (length (xdata src)) (xdata res)\<rparr>)
      else None)"

definition fuse_callback3 ::
  "objective \<Rightarrow> nat xtensor \<Rightarrow> nat xtensor \<Rightarrow> real \<Rightarrow> real \<Rightarrow> nat list \<Rightarrow> real
   \<Rightarrow> int xtensor \<Rightarrow> int xtensor option" where
  "fuse_callback3 obj labels_a labels_b e_a e_b cc_node_labels cc_energy res =
     (if cc_energy < min e_a e_b then materialize3 obj cc_node_labels res
      else if e_a < e_b then copy_into3 labels_a res
      else copy_into3 labels_b res)"

definition fuse_k_callback3 ::
  "objective \<Rightarrow> nat xtensor \<Rightarrow> nat list \<Rightarrow> real \<Rightarrow> int xtensor \<Rightarrow> int xtensor option" where
  "fuse_k_callback3 obj labels cc_node_labels cc_energy res = do {
     n_proposals \<leftarrow> nth_opt (xshape labels) 3;
     (best_e, best_i) \<leftarrow> best_proposal (evaluate3 obj) labels n_proposals;
     if less_best cc_energy best_e then materialize3 obj cc_node_labels res
     else do { l \<leftarrow> xview labels best_i; copy_into3 l res }
   }"

definition alloc_res3 :: "nat list \<Rightarrow> int xtensor" where
  "alloc_res3 reshape = \<lparr> xshape = reshape, xdata = replicate (prod_list reshape) 0 \<rparr>"

text \<open>\<open>fuse\<close>, two candidates.\<close>

definition fusion3_fuse ::
  "fusion \<Rightarrow> nat xtensor \<Rightarrow> nat xtensor \<Rightarrow> (int xtensor \<times> fusion) option" where
  "fusion3_fuse self labels_a labels_b = do {
     let obj = self_objective self;
     let u = ufd_reset (self_ufd self);
     let res = alloc_res3 [shape obj ! 0, shape obj ! 1, shape obj ! 2];
     u \<leftarrow> fusion3_merge_ufd obj u labels_a labels_b;
     e_a \<leftarrow> evaluate3 obj labels_a;
     e_b \<leftarrow> evaluate3 obj labels_b;
     (u, res, cc_obj, cc_node_labels, cc_energy) \<leftarrow>
       fusion3_build obj (self_solver_fatory self) u res;
     res \<leftarrow> fuse_callback3 obj labels_a labels_b e_a e_b cc_node_labels cc_energy res;
     Some (res, self\<lparr>self_ufd := u\<rparr>)
   }"

text \<open>\<open>fuse\<close>, candidates stacked along a trailing axis.\<close>

definition fusion3_fuse_k ::
  "fusion \<Rightarrow> nat xtensor \<Rightarrow> (int xtensor \<times> fusion) option" where
  "fusion3_fuse_k self labels = do {
     let obj = self_objective self;
     let u = ufd_reset (self_ufd self);
     let res = alloc_res3 [shape obj ! 0, shape obj ! 1, shape obj ! 2];
     u \<leftarrow> fusion3_merge_ufd2 obj u labels;
     (u, res, cc_obj, cc_node_labels, cc_energy) \<leftarrow>
       fusion3_build obj (self_solver_fatory self) u res;
     res \<leftarrow> fuse_k_callback3 obj labels cc_node_labels cc_energy res;
     Some (res, self\<lparr>self_ufd := u\<rparr>)
   }"

section \<open>Ground-truth edge tensor\<close>

text \<open>
  \<open>pixel_wise_lmc_edge_gt_2d\<close>.  The result tensor is allocated with its shape and
  not initialised; \<open>uninit\<close> is what the allocation holds, by flat position, before
  the loop writes to it.
\<close>

definition xset3 :: "'a xtensor \<Rightarrow> nat \<Rightarrow> nat \<Rightarrow> nat \<Rightarrow> 'a \<Rightarrow> 'a xtensor option" where
  "xset3 t i j k v =
     (case xshape t of
        [n0, n1, n2] \<Rightarrow>
          if i < n0 \<and> j < n1 \<and> k < n2 \<and> (i * n1 + j) * n2 + k < length (xdata t)
          then Some (t\<lparr>xdata := (xdata t)[(i * n1 + j) * n2 + k := v]\<rparr>) else None
      | _ \<Rightarrow> None)"

definition pixel_wise_lmc_edge_gt_2d ::
  "(nat \<Rightarrow> bool) \<Rightarrow> nat xtensor \<Rightarrow> int xtensor \<Rightarrow> bool xtensor option" where
  "pixel_wise_lmc_edge_gt_2d uninit e_gt e_offsets = do {
     shape0 \<leftarrow> nth_opt (xshape e_gt) 0;
     shape1 \<leftarrow> nth_opt (xshape e_gt) 1;
     n_offsets \<leftarrow> nth_opt (xshape e_offsets) 0;
     let result = \<lparr> xshape = [shape0, shape1, n_offsets],
                    xdata = map uninit [0..<shape0 * shape1 * n_offsets] \<rparr>;
     foldM (\<lambda>p0. foldM (\<lambda>p1 result. do {
       p_label \<leftarrow> xat2 e_gt p0 p1;
       foldM (\<lambda>offset_index result. do {
         o0 \<leftarrow> xat2 e_offsets offset_index 0;
         o1 \<leftarrow> xat2 e_offsets offset_index 1;
         let q0 = int p0 + o0;
         let q1 = int p1 + o1;
         if q0 \<ge> 0 \<and> q0 < int shape0 \<and> q1 \<ge> 0 \<and> q1 < int shape1
         then do {
           q_label \<leftarrow> xat2 e_gt (nat q0) (nat q1);
           xset3 result p0 p1 offset_index (p_label \<noteq> q_label)
         }
         else Some result
       }) [0..<n_offsets] result
     }) [0..<shape1]) [0..<shape0] result
   }"

section \<open>Optimizing the objective with an external solver\<close>

text \<open>
  Modelled from the spec: \<open>UndirectedGridGraph\<close>, whose source is not part of the
  material: one node per grid position, numbered row-major, with the base grid
  adjacency (nearest neighbours along one axis) as plain edges.
\<close>

definition grid_strides :: "nat list \<Rightarrow> nat list" where
  "grid_strides sh = map (\<lambda>d. prod_list (drop (Suc d) sh)) [0..<length sh]"

definition UndirectedGridGraph :: "nat list \<Rightarrow> cc_graph" where
  "UndirectedGridGraph sh =
     \<lparr> numberOfNodes = prod_list sh,
       edges = concat (map (\<lambda>n. concat (map (\<lambda>d.
                 if (n div (grid_strides sh ! d)) mod (sh ! d) + 1 < sh ! d
                 then [(n, n + grid_strides sh ! d)] else [])
               [0..<length sh])) [0..<prod_list sh]) \<rparr>"

text \<open>\<open>FillObjHelper<2>::fill\<close> and \<open>FillObjHelper<3>::fill\<close>.\<close>

definition fill2 :: "objective \<Rightarrow> cc_objective \<Rightarrow> cc_objective option" where
  "fill2 obj gridGraphObj0 = do {
     (node_p, gridGraphObj) \<leftarrow>
       foldM (\<lambda>p0. foldM (\<lambda>p1 (node_p, gridGraphObj). do {
         gridGraphObj \<leftarrow>
           foldM (\<lambda>offset_index gridGraphObj. do {
             o0 \<leftarrow> xat2 (offsets obj) offset_index 0;
             o1 \<leftarrow> xat2 (offsets obj) offset_index 1;
             let q0 = int p0 + o0;
             let q1 = int p1 + o1;
             if q0 \<ge> 0 \<and> q0 < int (shape obj ! 0) \<and> q1 \<ge> 0 \<and> q1 < int (shape obj ! 1)
             then do {
               let node_q = nat (q0 * int (shape obj ! 1) + q1);
               e \<leftarrow> xat3 (weights obj) p0 p1 offset_index;
               Some (setCost gridGraphObj node_p node_q e)
             }
             else Some gridGraphObj
           }) [0..<n_offsets obj] gridGraphObj;
         Some (node_p + 1, gridGraphObj)
       }) [0..<shape obj ! 1]) [0..<shape obj ! 0] (0, gridGraphObj0);
     Some gridGraphObj
   }"

definition fill3 :: "objective \<Rightarrow> cc_objective \<Rightarrow> cc_objective option" where
  "fill3 obj gridGraphObj0 = do {
     (node_p, gridGraphObj) \<leftarrow>
       foldM (\<lambda>p0. foldM (\<lambda>p1. foldM (\<lambda>p2 (node_p, gridGraphObj). do {
         gridGraphObj \<leftarrow>
           foldM (\<lambda>offset_index gridGraphObj. do {
             o0 \<leftarrow> xat2 (offsets obj) offset_index 0;
             o1 \<leftarrow> xat2 (offsets obj) offset_index 1;
             o2 \<leftarrow> xat2 (offsets obj) offset_index 2;
             let q0 = int p0 + o0;
             let q1 = int p1 + o1;
             let q2 = int p2 + o2;
             if q0 \<ge> 0 \<and> q0 < int (shape obj ! 0) \<and>
                q1 \<ge> 0 \<and> q1 < int (shape obj ! 1) \<and>
                q2 \<ge> 0 \<and> q2 < int (shape obj ! 2)
             then do {
               let node_q = nat (q0 * int (shape obj ! 1) * int (shape obj ! 2)
                                 + q1 * int (shape obj ! 2) + q2);
               e \<leftarrow> xat4 (weights obj) p0 p1 p2 offset_index;
               Some (setCost gridGraphObj node_p node_q e)
             }
             else Some gridGraphObj
           }) [0..<n_offsets obj] gridGraphObj;
         Some (node_p + 1, gridGraphObj)
       }) [0..<shape obj ! 2]) [0..<shape obj ! 1]) [0..<shape obj ! 0] (0, gridGraphObj0);
     Some gridGraphObj
   }"

text \<open>
  \<open>PixelWiseLmcObjective<DIM>::optimize\<close>.  The factory and the solver are the
  caller's: \<open>create\<close> makes a solver for an objective (or raises), and \<open>solve\<close> is
  \<open>solver->optimize\<close>: given the solver, the node labels and whether a visitor is
  passed, the node labels it leaves (or it raises).  Solver objects live on the heap;
  \<open>live\<close> counts those that exist and have not been deleted, and the function
  returns the count at the moment it returns or the exception leaves it, together
  with the result (\<open>None\<close> when an exception or a failed access ends the call).

  The first two blocks of the source, the grid objective that is filled and the node
  labels copied from the initial labeling, are definitions of their own.
\<close>

definition grid_objective :: "nat \<Rightarrow> objective \<Rightarrow> cc_objective option" where
  "grid_objective DIM obj =
     (let gridGraph = UndirectedGridGraph (shape obj);
          gridGraphObj = LiftedMulticutObjective gridGraph
      in if DIM = 2 then fill2 obj gridGraphObj else fill3 obj gridGraphObj)"

definition grid_node_labels :: "objective \<Rightarrow> nat xtensor \<Rightarrow> nat list option" where
  "grid_node_labels obj labels =
     (let n = numberOfNodes (UndirectedGridGraph (shape obj))
      in if length (xdata labels) > n then None
         else Some (xdata labels @ replicate (n - length (xdata labels)) 0))"

definition optimize ::
  "nat \<Rightarrow> objective \<Rightarrow> (cc_objective \<Rightarrow> 's option)
   \<Rightarrow> ('s \<Rightarrow> nat list \<Rightarrow> bool \<Rightarrow> nat list option)
   \<Rightarrow> nat xtensor \<Rightarrow> bool \<Rightarrow> nat \<Rightarrow> nat xtensor option \<times> nat" where
  "optimize DIM obj create solve labels verbose live =
     (case grid_objective DIM obj of
        None \<Rightarrow> (None, live)
      | Some gridGraphObj \<Rightarrow>
          (case grid_node_labels obj labels of
             None \<Rightarrow> (None, live)
           | Some gridGraphNodeLabels \<Rightarrow>
               (case create gridGraphObj of
                  None \<Rightarrow> (None, live)
                | Some solver \<Rightarrow>
                    let live = live + 1
                    in (case solve solver gridGraphNodeLabels verbose of
                          None \<Rightarrow> (None, live)
                        | Some node_labels \<Rightarrow>
                            let live = live - 1
                            in if prod_list (shape obj) \<le> length node_labels
                               then (Some \<lparr> xshape = shape obj,
                                            xdata = take (prod_list (shape obj)) node_labels \<rparr>,
                                     live)
                               else (None, live)))))"

section \<open>Notions for reasoning about the forest and the contracted objective\<close>

text \<open>
  \<open>is_rep ps x r\<close>: following the parent array \<open>ps\<close> from \<open>x\<close> ends at the root
  \<open>r\<close>.  Two forests have the same representatives when they have the same elements
  and every element has the same root in both.
\<close>

inductive is_rep :: "nat list \<Rightarrow> nat \<Rightarrow> nat \<Rightarrow> bool" for ps :: "nat list" where
  root: "x < length ps \<Longrightarrow> ps ! x = x \<Longrightarrow> is_rep ps x x"
| step: "x < length ps \<Longrightarrow> ps ! x \<noteq> x \<Longrightarrow> is_rep ps (ps ! x) r \<Longrightarrow> is_rep ps x r"

definition same_reps :: "ufd \<Rightarrow> ufd \<Rightarrow> bool" where
  "same_reps u u' =
     (length (parents u) = length (parents u')
      \<and> (\<forall>x r. is_rep (parents u) x r = is_rep (parents u') x r))"

definition in_same_set :: "nat list \<Rightarrow> nat \<Rightarrow> nat \<Rightarrow> bool" where
  "in_same_set ps a b = (\<exists>r. is_rep ps a r \<and> is_rep ps b r)"

text \<open>
  The invariant of the forest: every parent is an element, the rank grows strictly
  from a node to its parent, no rank exceeds what the number of roots leaves of the
  number of elements, and \<open>numberOfSets\<close> is the number of roots.
\<close>

definition ufd_roots :: "nat list \<Rightarrow> nat set" where
  "ufd_roots ps = {x. x < length ps \<and> ps ! x = x}"

definition ufd_inv :: "ufd \<Rightarrow> bool" where
  "ufd_inv u =
     (length (ranks u) = length (parents u)
      \<and> numberOfSets u = card (ufd_roots (parents u))
      \<and> (\<forall>x<length (parents u).
            parents u ! x < length (parents u)
            \<and> (parents u ! x \<noteq> x \<longrightarrow> ranks u ! x < ranks u ! (parents u ! x))
            \<and> ranks u ! x + card (ufd_roots (parents u)) \<le> length (parents u)))"

text \<open>
  The energy of a node labeling on a list of weighted lifted edges, with unchecked
  reads; \<open>evalNodeLabels\<close> returns this number whenever it returns.
\<close>

definition lifted_energy :: "((nat \<times> nat) \<times> real) list \<Rightarrow> nat list \<Rightarrow> real" where
  "lifted_energy l node_labels =
     sum_list (map (\<lambda>((u, v), w). if node_labels ! u \<noteq> node_labels ! v then w else 0) l)"

text \<open>
  The total weight of the lifted edges whose end points satisfy a test, and the
  weight the contracted objective holds for the pair of nodes \<open>a\<close>, \<open>b\<close>: the sum of
  the entries stored under that pair, in either order (the objective stores one entry
  per pair, under (min, max); the sum is zero when the pair has no entry).
\<close>

definition lifted_sum :: "(nat \<Rightarrow> nat \<Rightarrow> bool) \<Rightarrow> ((nat \<times> nat) \<times> real) list \<Rightarrow> real" where
  "lifted_sum T l = sum_list (map (\<lambda>((u, v), w). if T u v then w else 0) l)"

definition contracted_weight :: "cc_objective \<Rightarrow> nat \<Rightarrow> nat \<Rightarrow> real" where
  "contracted_weight c a b =
     lifted_sum (\<lambda>u v. (u = a \<and> v = b) \<or> (u = b \<and> v = a)) (lifted c)"

text \<open>
  The lifted edges are well kept: no pair of nodes has two entries, and every entry is
  stored under (smaller node, larger node).
\<close>

definition keys_ok :: "cc_objective \<Rightarrow> bool" where
  "keys_ok c = (distinct (map fst (lifted c)) \<and> (\<forall>k\<in>fst ` set (lifted c). fst k < snd k))"

text \<open>Every lifted edge joins two of the first \<open>N\<close> nodes.\<close>

definition keys_below :: "nat \<Rightarrow> cc_objective \<Rightarrow> bool" where
  "keys_below N c = (\<forall>k\<in>fst ` set (lifted c). fst k < N \<and> snd k < N)"

section \<open>Labelings that differ only in the names of the labels\<close>

text \<open>
  Two labelings put the same positions together: for all grid positions \<open>p\<close> and
  \<open>q\<close>, the first gives them equal labels exactly when the second does.
\<close>

definition same_partition2 :: "objective \<Rightarrow> nat xtensor \<Rightarrow> nat xtensor \<Rightarrow> bool" where
  "same_partition2 obj L L' =
     (\<forall>p0<shape obj ! 0. \<forall>p1<shape obj ! 1. \<forall>q0<shape obj ! 0. \<forall>q1<shape obj ! 1.
        (xat2 L p0 p1 = xat2 L q0 q1) = (xat2 L' p0 p1 = xat2 L' q0 q1))"

definition same_partition3 :: "objective \<Rightarrow> nat xtensor \<Rightarrow> nat xtensor \<Rightarrow> bool" where
  "same_partition3 obj L L' =
     (\<forall>p0<shape obj ! 0. \<forall>p1<shape obj ! 1. \<forall>p2<shape obj ! 2.
      \<forall>q0<shape obj ! 0. \<forall>q1<shape obj ! 1. \<forall>q2<shape obj ! 2.
        (xat3 L p0 p1 p2 = xat3 L q0 q1 q2) = (xat3 L' p0 p1 p2 = xat3 L' q0 q1 q2))"

section \<open>Example inputs\<close>

text \<open>
  A grid of one row and two columns with the single offset \<open>(0, 1)\<close>, the pair of
  pixels costing 1, and a solver that leaves the node labels as they were created.
\<close>

definition ex2_obj :: objective where
  "ex2_obj = PixelWiseLmcObjective 2 \<lparr>xshape = [1, 2, 1], xdata = [1, 0]\<rparr>
                                     \<lparr>xshape = [1, 2], xdata = [0, 1]\<rparr>"

definition ex2_A :: "nat xtensor" where
  "ex2_A = \<lparr>xshape = [1, 2], xdata = [0, 1]\<rparr>"



text \<open>
  A grid of shape \<open>(1, 1, 3)\<close> with the single offset \<open>(0, 0, 1)\<close>: the pair of the
  first two voxels costs 1 and the pair of the last two costs 10.  The solver cuts
  between the second and the third node.
\<close>

definition ex3_obj :: objective where
  "ex3_obj = PixelWiseLmcObjective 3 \<lparr>xshape = [1, 1, 3, 1], xdata = [1, 10, 0]\<rparr>
                                     \<lparr>xshape = [1, 3], xdata = [0, 0, 1]\<rparr>"

definition ex3_A :: "nat xtensor" where
  "ex3_A = \<lparr>xshape = [1, 1, 3], xdata = [0, 0, 1]\<rparr>"

definition ex3_B :: "nat xtensor" where
  "ex3_B = \<lparr>xshape = [1, 1, 3], xdata = [0, 1, 1]\<rparr>"

definition ex3_solver :: "cc_objective \<Rightarrow> nat list \<Rightarrow> nat list option" where
  "ex3_solver cc_obj node_labels = Some [0, 0, 1]"

text \<open>The labeling \<open>[0, 0, 1]\<close> of that grid as the \<open>int\<close> result tensor holds it.\<close>

definition ex3_R :: "int xtensor" where
  "ex3_R = \<lparr>xshape = [1, 1, 3], xdata = [0, 0, 1]\<rparr>"

text \<open>
  A grid of shape \<open>(2, 2, 1)\<close> and three stacked candidates: the first two label
  every voxel 0, the third labels the voxels \<open>(0, 0, 0)\<close> and \<open>(1, 0, 0)\<close> with 0 and
  the voxels \<open>(0, 1, 0)\<close> and \<open>(1, 1, 0)\<close> with 1.
\<close>

definition ex3k_obj :: objective where
  "ex3k_obj = PixelWiseLmcObjective 3 \<lparr>xshape = [2, 2, 1, 1], xdata = [1, 1, 1, 1]\<rparr>
                                      \<lparr>xshape = [1, 3], xdata = [0, 1, 0]\<rparr>"

definition ex3k_labels :: "nat xtensor" where
  "ex3k_labels = \<lparr>xshape = [2, 2, 1, 3],
                   xdata = [0, 0, 0,  0, 0, 1,  0, 0, 0,  0, 0, 1]\<rparr>"

text \<open>Relabelled copies of the first candidates above.\<close>

definition ex2_A' :: "nat xtensor" where
  "ex2_A' = \<lparr>xshape = [1, 2], xdata = [7, 4]\<rparr>"

definition ex3_A' :: "nat xtensor" where
  "ex3_A' = \<lparr>xshape = [1, 1, 3], xdata = [5, 5, 2]\<rparr>"

text \<open>A solver that gives every node of the contracted graph a label of its own.\<close>

definition solver_split :: "cc_objective \<Rightarrow> nat list \<Rightarrow> nat list option" where
  "solver_split cc_obj node_labels = Some [0..<length node_labels]"

text \<open>
  A grid of one row and three columns with the single offset \<open>(0, 1)\<close>, whose two
  pairs of neighbours cost \<open>2^24\<close> and 3, and one stacked candidate that separates
  all three pixels: its energy \<open>2^24 + 3\<close> lies halfway between two single-precision
  values and narrows to the upper one.
\<close>

definition exup_obj :: objective where
  "exup_obj = PixelWiseLmcObjective 2 \<lparr>xshape = [1, 3, 1], xdata = [16777216, 3, 0]\<rparr>
                                      \<lparr>xshape = [1, 2], xdata = [0, 1]\<rparr>"

definition exup_stack :: "nat xtensor" where
  "exup_stack = \<lparr>xshape = [1, 3, 1], xdata = [5, 6, 7]\<rparr>"

text \<open>
  The same grid with the costs \<open>2^24\<close> and 1, and two stacked candidates: the first,
  \<open>[3, 4, 5]\<close>, separates all three pixels and has the energy \<open>2^24 + 1\<close>, which
  narrows to \<open>2^24\<close>; the second, \<open>[3, 4, 4]\<close>, joins the last two and has the
  energy \<open>2^24\<close>.
\<close>

definition exdown_obj :: objective where
  "exdown_obj = PixelWiseLmcObjective 2 \<lparr>xshape = [1, 3, 1], xdata = [16777216, 1, 0]\<rparr>
                                        \<lparr>xshape = [1, 2], xdata = [0, 1]\<rparr>"

definition exdown_stack :: "nat xtensor" where
  "exdown_stack = \<lparr>xshape = [1, 3, 2], xdata = [3, 3,  4, 4,  5, 4]\<rparr>"

text \<open>
  A grid of shape \<open>(2, 1, 1)\<close> with the single offset \<open>(1, 0, 0)\<close>, the pair of
  its two voxels costing 1, and a candidate whose labels need more than 31 bits.
\<close>

definition ex3s_obj :: objective where
  "ex3s_obj = PixelWiseLmcObjective 3 \<lparr>xshape = [2, 1, 1, 1], xdata = [1, 0]\<rparr>
                                      \<lparr>xshape = [1, 3], xdata = [1, 0, 0]\<rparr>"

definition ex3s_big :: "nat xtensor" where
  "ex3s_big = \<lparr>xshape = [2, 1, 1], xdata = [2147483648, 2147483649]\<rparr>"

text \<open>
  A factory whose solvers carry no data, a solver that raises, and a solver that
  leaves the node labels as they are.
\<close>

definition create_unit :: "cc_objective \<Rightarrow> unit option" where
  "create_unit gridGraphObj = Some ()"

definition solve_raises :: "unit \<Rightarrow> nat list \<Rightarrow> bool \<Rightarrow> nat list option" where
  "solve_raises solver node_labels verbose = None"

definition solve_keep :: "unit \<Rightarrow> nat list \<Rightarrow> bool \<Rightarrow> nat list option" where
  "solve_keep solver node_labels verbose = Some node_labels"

text \<open>
  The offsets of the one-by-two grid as a tensor of their own, and an allocation whose
  every cell happens to hold \<open>true\<close>.
\<close>

definition ex2_offsets :: "int xtensor" where
  "ex2_offsets = \<lparr>xshape = [1, 2], xdata = [0, 1]\<rparr>"

definition uninit_true :: "nat \<Rightarrow> bool" where
  "uninit_true i = True"

section \<open>Basic facts\<close>

lemma foldM_sum:
  assumes "\<And>x s. x \<in> set xs \<Longrightarrow> f x s = Some (s + g x)"
  shows "foldM f xs s = Some (s + sum_list (map g xs))"
  using assms
proof (induction xs arbitrary: s)
  case Nil
  then show ?case by simp
next
  case (Cons x xs)
  have "f x s = Some (s + g x)" using Cons.prems by simp
  moreover have "foldM f xs (s + g x) = Some (s + g x + sum_list (map g xs))"
    using Cons.IH Cons.prems by simp
  ultimately show ?case by (simp add: add.assoc)
qed

lemma foldM_sum_upt:
  fixes g :: "nat \<Rightarrow> real"
  assumes "\<And>x s. x < n \<Longrightarrow> f x s = Some (s + g x)"
  shows "foldM f [0..<n] s = Some (s + (\<Sum>x<n. g x))"
proof -
  have "foldM f [0..<n] s = Some (s + sum_list (map g [0..<n]))"
    by (rule foldM_sum) (simp add: assms)
  moreover have "sum_list (map g [0..<n]) = (\<Sum>x<n. g x)"
    by (simp add: interv_sum_list_conv_sum_set_nat atLeast0LessThan)
  ultimately show ?thesis by simp
qed

lemma idx2_less: "i < (n0::nat) \<Longrightarrow> j < n1 \<Longrightarrow> i * n1 + j < n0 * n1"
proof -
  assume a: "i < n0" "j < n1"
  have "i * n1 + j < i * n1 + n1" using a by simp
  also have "\<dots> = Suc i * n1" by simp
  also have "\<dots> \<le> n0 * n1" using a by (intro mult_le_mono1) simp
  finally show ?thesis .
qed

lemma xat2_wf:
  "wf_tensor t \<Longrightarrow> xshape t = [n0, n1] \<Longrightarrow> i < n0 \<Longrightarrow> j < n1
   \<Longrightarrow> xat2 t i j = Some (xdata t ! (i * n1 + j))"
  by (simp add: xat2_def wf_tensor_def idx2_less)

lemma xat3_wf:
  "wf_tensor t \<Longrightarrow> xshape t = [n0, n1, n2] \<Longrightarrow> i < n0 \<Longrightarrow> j < n1 \<Longrightarrow> k < n2
   \<Longrightarrow> xat3 t i j k = Some (xdata t ! ((i * n1 + j) * n2 + k))"
  using idx2_less [OF idx2_less [of i n0 j n1], of k n2]
  by (simp add: xat3_def wf_tensor_def mult.assoc)

lemma xat4_wf:
  "wf_tensor t \<Longrightarrow> xshape t = [n0, n1, n2, n3] \<Longrightarrow> i < n0 \<Longrightarrow> j < n1 \<Longrightarrow> k < n2
   \<Longrightarrow> l < n3 \<Longrightarrow> xat4 t i j k l = Some (xdata t ! (((i * n1 + j) * n2 + k) * n3 + l))"
  using idx2_less [OF idx2_less [OF idx2_less [of i n0 j n1], of k n2], of l n3]
  by (simp add: xat4_def wf_tensor_def mult.assoc)

lemma foldM_sum_upt0:
  fixes g :: "nat \<Rightarrow> real"
  assumes "\<And>x s. x < n \<Longrightarrow> f x s = Some (s + g x)"
  shows "foldM f [0..<n] 0 = Some (\<Sum>x<n. g x)"
  using foldM_sum_upt [of n f g 0, OF assms] by simp

lemma evaluate2_energy:
  assumes wo: "wf_objective 2 obj" and wl: "wf_labels obj L"
  shows "evaluate2 obj L = Some (energy2_spec obj L)"
proof -
  obtain s0 s1 where sh: "shape obj = [s0, s1]"
    using wo by (auto simp: wf_objective_def length_Suc_conv numeral_2_eq_2)
  have W: "wf_tensor (weights obj)" "xshape (weights obj) = [s0, s1, n_offsets obj]"
    and O: "wf_tensor (offsets obj)" "xshape (offsets obj) = [n_offsets obj, 2]"
    using wo sh by (simp_all add: wf_objective_def)
  have Lw: "wf_tensor L" "xshape L = [s0, s1]"
    using wl sh by (simp_all add: wf_labels_def)
  note acc = xat2_wf [OF Lw] xat2_wf [OF O] xat3_wf [OF W]
  have step: "xat2 (offsets obj) k 0 \<bind>
          (\<lambda>o0. xat2 (offsets obj) k 1 \<bind>
                (\<lambda>o1. let q0 = int p0 + o0; q1 = int p1 + o1
                      in if 0 \<le> q0 \<and> q0 < int s0 \<and> 0 \<le> q1 \<and> q1 < int s1
                         then xat2 L (nat q0) (nat q1) \<bind>
                              (\<lambda>label_q.
                                  if lp \<noteq> label_q
                                  then xat3 (weights obj) p0 p1 k \<bind> (\<lambda>w. Some (s + w))
                                  else Some s)
                         else Some s)) =
          Some
           (s +
            (let q0 = int p0 + the (xat2 (offsets obj) k 0);
                 q1 = int p1 + the (xat2 (offsets obj) k 1)
             in if 0 \<le> q0 \<and> q0 < int s0 \<and> 0 \<le> q1 \<and> q1 < int s1 \<and>
                   lp \<noteq> the (xat2 L (nat q0) (nat q1))
                then the (xat3 (weights obj) p0 p1 k) else 0))"
    if "p0 < s0" "p1 < s1" "k < n_offsets obj" for p0 p1 k s lp
  proof -
    have "\<exists>o0. xat2 (offsets obj) k 0 = Some o0" "\<exists>o1. xat2 (offsets obj) k 1 = Some o1"
      using that by (simp_all add: acc(2))
    then obtain o0 o1 where o: "xat2 (offsets obj) k 0 = Some o0" "xat2 (offsets obj) k 1 = Some o1"
      by blast
    have "\<exists>w. xat3 (weights obj) p0 p1 k = Some w"
      using that by (simp add: acc(3))
    then obtain w where w: "xat3 (weights obj) p0 p1 k = Some w" by blast
    show ?thesis
    proof (cases "0 \<le> int p0 + o0 \<and> int p0 + o0 < int s0 \<and> 0 \<le> int p1 + o1 \<and> int p1 + o1 < int s1")
      case True
      then have "nat (int p0 + o0) < s0" "nat (int p1 + o1) < s1" by auto
      then have "\<exists>lq. xat2 L (nat (int p0 + o0)) (nat (int p1 + o1)) = Some lq"
        by (simp add: acc(1))
      then obtain lq where "xat2 L (nat (int p0 + o0)) (nat (int p1 + o1)) = Some lq" by blast
      then show ?thesis using True o w by (simp add: Let_def)
    next
      case False
      then show ?thesis using o by (auto simp add: Let_def)
    qed
  qed
  show ?thesis
    unfolding evaluate2_def energy2_spec_def
    apply (rule foldM_sum_upt0)
    apply (rule foldM_sum_upt)
    apply (simp add: sh acc(1))
    apply (rule foldM_sum_upt)
    apply (rule step [simplified])
    apply simp_all
    done
qed


lemma evaluate3_energy:
  assumes wo: "wf_objective 3 obj" and wl: "wf_labels obj L"
  shows "evaluate3 obj L = Some (energy3_spec obj L)"
proof -
  obtain s0 s1 s2 where sh: "shape obj = [s0, s1, s2]"
    using wo by (auto simp: wf_objective_def length_Suc_conv numeral_3_eq_3)
  have W: "wf_tensor (weights obj)" "xshape (weights obj) = [s0, s1, s2, n_offsets obj]"
    and O: "wf_tensor (offsets obj)" "xshape (offsets obj) = [n_offsets obj, 3]"
    using wo sh by (simp_all add: wf_objective_def)
  have Lw: "wf_tensor L" "xshape L = [s0, s1, s2]"
    using wl sh by (simp_all add: wf_labels_def)
  note acc = xat3_wf [OF Lw] xat2_wf [OF O] xat4_wf [OF W]
  have step: "xat2 (offsets obj) k 0 \<bind>
          (\<lambda>o0. xat2 (offsets obj) k 1 \<bind>
          (\<lambda>o1. xat2 (offsets obj) k 2 \<bind>
                (\<lambda>o2. let q0 = int p0 + o0; q1 = int p1 + o1; q2 = int p2 + o2
                      in if 0 \<le> q0 \<and> q0 < int s0 \<and> 0 \<le> q1 \<and> q1 < int s1
                            \<and> 0 \<le> q2 \<and> q2 < int s2
                         then xat3 L (nat q0) (nat q1) (nat q2) \<bind>
                              (\<lambda>label_q.
                                  if lp \<noteq> label_q
                                  then xat4 (weights obj) p0 p1 p2 k \<bind> (\<lambda>w. Some (s + w))
                                  else Some s)
                         else Some s))) =
          Some
           (s +
            (let q0 = int p0 + the (xat2 (offsets obj) k 0);
                 q1 = int p1 + the (xat2 (offsets obj) k 1);
                 q2 = int p2 + the (xat2 (offsets obj) k 2)
             in if 0 \<le> q0 \<and> q0 < int s0 \<and> 0 \<le> q1 \<and> q1 < int s1 \<and>
                   0 \<le> q2 \<and> q2 < int s2 \<and>
                   lp \<noteq> the (xat3 L (nat q0) (nat q1) (nat q2))
                then the (xat4 (weights obj) p0 p1 p2 k) else 0))"
    if "p0 < s0" "p1 < s1" "p2 < s2" "k < n_offsets obj" for p0 p1 p2 k s lp
  proof -
    have "\<exists>o0. xat2 (offsets obj) k 0 = Some o0" "\<exists>o1. xat2 (offsets obj) k 1 = Some o1"
      "\<exists>o2. xat2 (offsets obj) k 2 = Some o2"
      using that by (simp_all add: acc(2))
    then obtain o0 o1 o2 where o: "xat2 (offsets obj) k 0 = Some o0"
      "xat2 (offsets obj) k 1 = Some o1" "xat2 (offsets obj) k 2 = Some o2"
      by blast
    have "\<exists>w. xat4 (weights obj) p0 p1 p2 k = Some w"
      using that by (simp add: acc(3))
    then obtain w where w: "xat4 (weights obj) p0 p1 p2 k = Some w" by blast
    show ?thesis
    proof (cases "0 \<le> int p0 + o0 \<and> int p0 + o0 < int s0 \<and> 0 \<le> int p1 + o1 \<and> int p1 + o1 < int s1
                  \<and> 0 \<le> int p2 + o2 \<and> int p2 + o2 < int s2")
      case True
      then have "nat (int p0 + o0) < s0" "nat (int p1 + o1) < s1" "nat (int p2 + o2) < s2" by auto
      then have "\<exists>lq. xat3 L (nat (int p0 + o0)) (nat (int p1 + o1)) (nat (int p2 + o2)) = Some lq"
        by (simp add: acc(1))
      then obtain lq where "xat3 L (nat (int p0 + o0)) (nat (int p1 + o1)) (nat (int p2 + o2)) = Some lq" by blast
      then show ?thesis using True o w by (simp add: Let_def)
    next
      case False
      then show ?thesis using o by (auto simp add: Let_def)
    qed
  qed
  show ?thesis
    unfolding evaluate3_def energy3_spec_def
    apply (rule foldM_sum_upt0)
    apply (rule foldM_sum_upt)
    apply (rule foldM_sum_upt)
    apply (simp add: sh acc(1))
    apply (rule foldM_sum_upt)
    apply (rule step [simplified])
    apply simp_all
    done
qed


lemma foldM_append: "foldM f (xs @ ys) s = Option.bind (foldM f xs s) (foldM f ys)"
  by (induction xs arbitrary: s) (auto split: bind_splits)

lemma foldM_invariant:
  assumes "foldM f xs s = Some s'" and "P s"
    and "\<And>x t t'. x \<in> set xs \<Longrightarrow> P t \<Longrightarrow> f x t = Some t' \<Longrightarrow> P t'"
  shows "P s'"
  using assms
proof (induction xs arbitrary: s)
  case Nil
  then show ?case by simp
next
  case (Cons x xs)
  from Cons.prems(1) obtain t where t: "f x s = Some t" "foldM f xs t = Some s'"
    by (auto simp: bind_eq_Some_conv)
  have "P t" using Cons.prems(3) [of x s t] Cons.prems(2) t(1) by simp
  moreover have "\<And>y t t'. y \<in> set xs \<Longrightarrow> P t \<Longrightarrow> f y t = Some t' \<Longrightarrow> P t'"
    using Cons.prems(3) [of _ _ _] by (meson list.set_intros(2))
  ultimately show ?case using Cons.IH [OF t(2)] by blast
qed

lemma dense_relabel_length:
  assumes "dense_relabel obj td u0 d0 = Some (u, d)"
  shows "length d = length d0"
proof -
  have "length (snd (u, d)) = length d0"
    by (rule foldM_invariant [OF assms [unfolded dense_relabel_def],
          where P = "\<lambda>s. length (snd s) = length d0"])
       (auto simp: bind_eq_Some_conv upd_opt_def split: if_splits)
  then show ?thesis by simp
qed

lemma run_solver_energy:
  "run_solver sf cc_obj = Some (cc, e) \<Longrightarrow> evalNodeLabels cc_obj cc = Some e"
  by (auto simp: run_solver_def bind_eq_Some_conv)

lemma fusion2_build_res:
  assumes "fusion2_build obj sf u0 res0 = Some (u, res, cc_obj, cc, e)"
  shows "xshape res = xshape res0 \<and> length (xdata res) = length (xdata res0)
         \<and> evalNodeLabels cc_obj cc = Some e"
  using assms
  by (auto simp: fusion2_build_def bind_eq_Some_conv Let_def dense_relabel_length
      run_solver_energy)


lemma copy_into_same:
  assumes "copy_into l res = Some r" and "xshape l = xshape res"
    and "length (xdata l) = length (xdata res)"
  shows "r = l"
  using assms by (auto simp: copy_into_def split: if_splits)


section \<open>What the callbacks of fuse select\<close>

lemma wf_stack_shape:
  assumes "wf_stack obj labels" and "length (shape obj) = DIM"
  shows "xshape labels = shape obj @ [last (xshape labels)]"
    and "nth_opt (xshape labels) DIM = Some (last (xshape labels))"
proof -
  show a: "xshape labels = shape obj @ [last (xshape labels)]"
    using assms(1) by (metis wf_stack_def append_butlast_last_id)
  have "length (xshape labels) = Suc DIM" using arg_cong [OF a, of length] assms(2) by simp
  moreover have "xshape labels ! DIM = last (xshape labels)"
    using a assms(2) by (metis nth_append_length)
  ultimately show "nth_opt (xshape labels) DIM = Some (last (xshape labels))"
    by (simp add: nth_opt_def)
qed

lemma xview_wf_stack:
  assumes "wf_stack obj labels" and "xview labels i = Some l"
  shows "xshape l = shape obj" and "length (xdata l) = prod_list (shape obj)"
  using assms by (auto simp: xview_def wf_stack_def split: if_splits)

lemma alloc_res_simps [simp]:
  "xshape (alloc_res sh) = sh" "length (xdata (alloc_res sh)) = prod_list sh"
  by (simp_all add: alloc_res_def)

lemma fuse_callback_char:
  assumes "fuse_callback obj A B e_a e_b cc e res = Some r"
    and "xshape A = xshape res" "length (xdata A) = length (xdata res)"
    and "xshape B = xshape res" "length (xdata B) = length (xdata res)"
  shows "if e < min e_a e_b then materialize obj cc res = Some r
         else r = (if e_a < e_b then A else B)"
  using assms by (auto simp: fuse_callback_def dest: copy_into_same split: if_splits)

lemma fusion2_fuse_char:
  assumes wo: "wf_objective 2 (self_objective self)"
    and wa: "wf_labels (self_objective self) A" and wb: "wf_labels (self_objective self) B"
    and run: "fusion2_fuse self A B = Some (r, self')"
  shows "\<exists>u0 u res cc_obj cc e e_a e_b.
      fusion2_merge_ufd (self_objective self) (ufd_reset (self_ufd self)) A B = Some u0
    \<and> fusion2_build (self_objective self) (self_solver_fatory self) u0
         (alloc_res (shape (self_objective self))) = Some (u, res, cc_obj, cc, e)
    \<and> evalNodeLabels cc_obj cc = Some e
    \<and> evaluate2 (self_objective self) A = Some e_a
    \<and> evaluate2 (self_objective self) B = Some e_b
    \<and> (if e < min e_a e_b then materialize (self_objective self) cc res = Some r
        else r = (if e_a < e_b then A else B))"
proof -
  let ?obj = "self_objective self"
  obtain s0 s1 where sh: "shape ?obj = [s0, s1]"
    using wo by (auto simp: wf_objective_def length_Suc_conv numeral_2_eq_2)
  from run obtain u0 e_a e_b u res cc_obj cc e where
    m: "fusion2_merge_ufd ?obj (ufd_reset (self_ufd self)) A B = Some u0"
    and ea: "evaluate2 ?obj A = Some e_a" and eb: "evaluate2 ?obj B = Some e_b"
    and b: "fusion2_build ?obj (self_solver_fatory self) u0 (alloc_res (shape ?obj))
              = Some (u, res, cc_obj, cc, e)"
    and cb: "fuse_callback ?obj A B e_a e_b cc e res = Some r"
    by (auto simp: fusion2_fuse_def bind_eq_Some_conv Let_def sh)
  note br = fusion2_build_res [OF b]
  have "xshape A = xshape res" "length (xdata A) = length (xdata res)"
    "xshape B = xshape res" "length (xdata B) = length (xdata res)"
    using wa wb br by (simp_all add: wf_labels_def wf_tensor_def)
  from fuse_callback_char [OF cb this] m ea eb b br show ?thesis by blast
qed

section \<open>The energy\<close>

text \<open>
  C2.  For two and for three grid axes, \<open>evaluate\<close> returns, without failing, the
  sum over all grid positions \<open>p\<close> and all offset indices \<open>k\<close> of \<open>weight(p, k)\<close>
  taken exactly when \<open>q = p + offset_k\<close> lies inside the grid and the labels of
  \<open>p\<close> and \<open>q\<close> differ; a neighbour outside the grid contributes nothing and is
  no error.
\<close>

theorem evaluate_is_energy_sum:
  assumes "wf_objective 2 obj2" and "wf_labels obj2 L2"
    and "wf_objective 3 obj3" and "wf_labels obj3 L3"
  shows "evaluate2 obj2 L2 = Some (energy2_spec obj2 L2)
         \<and> evaluate3 obj3 L3 = Some (energy3_spec obj3 L3)"
  using assms by (simp add: evaluate2_energy evaluate3_energy)

theorem evaluate_is_energy_sum_witness:
  "wf_objective 2 ex2_obj \<and> wf_labels ex2_obj ex2_A
   \<and> wf_objective 3 ex3_obj \<and> wf_labels ex3_obj ex3_A
   \<and> evaluate2 ex2_obj ex2_A = Some (energy2_spec ex2_obj ex2_A)
   \<and> evaluate3 ex3_obj ex3_A = Some (energy3_spec ex3_obj ex3_A)"
proof -
  have h1: "wf_objective 2 ex2_obj" by code_simp
  have h2: "wf_labels ex2_obj ex2_A" by code_simp
  have h3: "wf_objective 3 ex3_obj" by code_simp
  have h4: "wf_labels ex3_obj ex3_A" by code_simp
  show ?thesis using evaluate_is_energy_sum [OF h1 h2 h3 h4] h1 h2 h3 h4 by simp
qed

lemma energy2_relabel:
  assumes wo: "wf_objective 2 obj" and wl: "wf_labels obj L" and wl': "wf_labels obj L'"
    and sp: "same_partition2 obj L L'"
  shows "energy2_spec obj L = energy2_spec obj L'"
proof -
  obtain s0 s1 where sh: "shape obj = [s0, s1]"
    using wo by (auto simp: wf_objective_def length_Suc_conv numeral_2_eq_2)
  have Lw: "wf_tensor L" "xshape L = [s0, s1]" and Lw': "wf_tensor L'" "xshape L' = [s0, s1]"
    using wl wl' sh by (simp_all add: wf_labels_def)
  have eq: "(the (xat2 L p0 p1) \<noteq> the (xat2 L (nat q0) (nat q1)))
            = (the (xat2 L' p0 p1) \<noteq> the (xat2 L' (nat q0) (nat q1)))"
    if "p0 < s0" "p1 < s1" "0 \<le> q0" "q0 < int s0" "0 \<le> q1" "q1 < int s1" for p0 p1 q0 q1
  proof -
    have n: "nat q0 < s0" "nat q1 < s1" using that by auto
    have "(xat2 L p0 p1 = xat2 L (nat q0) (nat q1)) = (xat2 L' p0 p1 = xat2 L' (nat q0) (nat q1))"
      using sp that(1,2) n by (simp add: same_partition2_def sh)
    then show ?thesis
      using that(1,2) n by (simp add: xat2_wf [OF Lw] xat2_wf [OF Lw'])
  qed
  have "(let q0 = int p0 + the (xat2 (offsets obj) k 0);
            q1 = int p1 + the (xat2 (offsets obj) k 1)
        in if 0 \<le> q0 \<and> q0 < int (shape obj ! 0) \<and> 0 \<le> q1 \<and> q1 < int (shape obj ! 1)
              \<and> the (xat2 L p0 p1) \<noteq> the (xat2 L (nat q0) (nat q1))
           then the (xat3 (weights obj) p0 p1 k) else 0)
      = (let q0 = int p0 + the (xat2 (offsets obj) k 0);
            q1 = int p1 + the (xat2 (offsets obj) k 1)
        in if 0 \<le> q0 \<and> q0 < int (shape obj ! 0) \<and> 0 \<le> q1 \<and> q1 < int (shape obj ! 1)
              \<and> the (xat2 L' p0 p1) \<noteq> the (xat2 L' (nat q0) (nat q1))
           then the (xat3 (weights obj) p0 p1 k) else 0)"
    if "p0 < shape obj ! 0" "p1 < shape obj ! 1" for p0 p1 k
    using that eq [of p0 p1 "int p0 + the (xat2 (offsets obj) k 0)" "int p1 + the (xat2 (offsets obj) k 1)"]
    by (auto simp add: Let_def sh)
  then show ?thesis
    unfolding energy2_spec_def by (intro sum.cong refl) simp
qed

lemma energy3_relabel:
  assumes wo: "wf_objective 3 obj" and wl: "wf_labels obj L" and wl': "wf_labels obj L'"
    and sp: "same_partition3 obj L L'"
  shows "energy3_spec obj L = energy3_spec obj L'"
proof -
  obtain s0 s1 s2 where sh: "shape obj = [s0, s1, s2]"
    using wo by (auto simp: wf_objective_def length_Suc_conv numeral_3_eq_3)
  have Lw: "wf_tensor L" "xshape L = [s0, s1, s2]"
    and Lw': "wf_tensor L'" "xshape L' = [s0, s1, s2]"
    using wl wl' sh by (simp_all add: wf_labels_def)
  have eq: "(the (xat3 L p0 p1 p2) \<noteq> the (xat3 L (nat q0) (nat q1) (nat q2)))
            = (the (xat3 L' p0 p1 p2) \<noteq> the (xat3 L' (nat q0) (nat q1) (nat q2)))"
    if "p0 < s0" "p1 < s1" "p2 < s2" "0 \<le> q0" "q0 < int s0" "0 \<le> q1" "q1 < int s1"
       "0 \<le> q2" "q2 < int s2" for p0 p1 p2 q0 q1 q2
  proof -
    have n: "nat q0 < s0" "nat q1 < s1" "nat q2 < s2" using that by auto
    have "(xat3 L p0 p1 p2 = xat3 L (nat q0) (nat q1) (nat q2))
          = (xat3 L' p0 p1 p2 = xat3 L' (nat q0) (nat q1) (nat q2))"
      using sp that(1,2,3) n by (simp add: same_partition3_def sh)
    then show ?thesis
      using that(1,2,3) n by (simp add: xat3_wf [OF Lw] xat3_wf [OF Lw'])
  qed
  have "(let q0 = int p0 + the (xat2 (offsets obj) k 0);
            q1 = int p1 + the (xat2 (offsets obj) k 1);
            q2 = int p2 + the (xat2 (offsets obj) k 2)
        in if 0 \<le> q0 \<and> q0 < int (shape obj ! 0) \<and> 0 \<le> q1 \<and> q1 < int (shape obj ! 1)
              \<and> 0 \<le> q2 \<and> q2 < int (shape obj ! 2)
              \<and> the (xat3 L p0 p1 p2) \<noteq> the (xat3 L (nat q0) (nat q1) (nat q2))
           then the (xat4 (weights obj) p0 p1 p2 k) else 0)
      = (let q0 = int p0 + the (xat2 (offsets obj) k 0);
            q1 = int p1 + the (xat2 (offsets obj) k 1);
            q2 = int p2 + the (xat2 (offsets obj) k 2)
        in if 0 \<le> q0 \<and> q0 < int (shape obj ! 0) \<and> 0 \<le> q1 \<and> q1 < int (shape obj ! 1)
              \<and> 0 \<le> q2 \<and> q2 < int (shape obj ! 2)
              \<and> the (xat3 L' p0 p1 p2) \<noteq> the (xat3 L' (nat q0) (nat q1) (nat q2))
           then the (xat4 (weights obj) p0 p1 p2 k) else 0)"
    if "p0 < shape obj ! 0" "p1 < shape obj ! 1" "p2 < shape obj ! 2" for p0 p1 p2 k
    using that eq [of p0 p1 p2 "int p0 + the (xat2 (offsets obj) k 0)"
        "int p1 + the (xat2 (offsets obj) k 1)" "int p2 + the (xat2 (offsets obj) k 2)"]
    by (auto simp add: Let_def sh)
  then show ?thesis
    unfolding energy3_spec_def by (intro sum.cong refl) simp
qed

text \<open>
  C8.  The energy depends on a labeling only through which positions share a label:
  two labelings of the grid that put the same pairs of positions together have the
  same energy, for two and for three grid axes.
\<close>

theorem evaluate_relabeling_invariant:
  assumes "wf_objective 2 obj2" and "wf_labels obj2 L2" and "wf_labels obj2 L2'"
    and "same_partition2 obj2 L2 L2'"
    and "wf_objective 3 obj3" and "wf_labels obj3 L3" and "wf_labels obj3 L3'"
    and "same_partition3 obj3 L3 L3'"
  shows "evaluate2 obj2 L2 = evaluate2 obj2 L2' \<and> evaluate3 obj3 L3 = evaluate3 obj3 L3'"
  using assms
  by (simp add: evaluate2_energy evaluate3_energy energy2_relabel energy3_relabel)

theorem evaluate_relabeling_invariant_witness:
  "wf_objective 2 ex2_obj \<and> wf_labels ex2_obj ex2_A \<and> wf_labels ex2_obj ex2_A'
   \<and> same_partition2 ex2_obj ex2_A ex2_A'
   \<and> wf_objective 3 ex3_obj \<and> wf_labels ex3_obj ex3_A \<and> wf_labels ex3_obj ex3_A'
   \<and> same_partition3 ex3_obj ex3_A ex3_A'
   \<and> evaluate2 ex2_obj ex2_A = evaluate2 ex2_obj ex2_A'
   \<and> evaluate3 ex3_obj ex3_A = evaluate3 ex3_obj ex3_A'"
proof -
  have h1: "wf_objective 2 ex2_obj" by code_simp
  have h2: "wf_labels ex2_obj ex2_A" by code_simp
  have h3: "wf_labels ex2_obj ex2_A'" by code_simp
  have h4: "same_partition2 ex2_obj ex2_A ex2_A'"
    by (simp add: same_partition2_def ex2_obj_def ex2_A_def ex2_A'_def
        PixelWiseLmcObjective_def xat2_def less_Suc_eq numeral_2_eq_2)
  have h5: "wf_objective 3 ex3_obj" by code_simp
  have h6: "wf_labels ex3_obj ex3_A" by code_simp
  have h7: "wf_labels ex3_obj ex3_A'" by code_simp
  have h8: "same_partition3 ex3_obj ex3_A ex3_A'"
    by (simp add: same_partition3_def ex3_obj_def ex3_A_def ex3_A'_def
        PixelWiseLmcObjective_def xat3_def less_Suc_eq numeral_3_eq_3)
  show ?thesis
    using evaluate_relabeling_invariant [OF h1 h2 h3 h4 h5 h6 h7 h8] h1 h2 h3 h4 h5 h6 h7 h8
    by simp
qed


section \<open>The three-axis engine at concrete inputs\<close>

text \<open>
  C1.  The claim is that the labeling \<open>fuse\<close> returns never has more energy than the
  better candidate, for two and for three grid axes.  On the grid of shape
  \<open>(1, 1, 3)\<close> the three-axis \<open>fuse\<close> returns a labeling of energy 10 although
  the candidate \<open>ex3_B\<close> has energy 1: the lifted fill of \<open>_build_\<close> stops its
  innermost loop at \<open>shape[1]\<close>, the pair of the last two voxels never reaches the
  contracted objective, and the solver's labeling is scored 0 there.
\<close>

theorem fusion3_fuse_regression:
  "map_option fst
     (fusion3_fuse (PixelWiseLmcConnetedComponentsFusion ex3_obj ex3_solver) ex3_A ex3_B)
     = Some ex3_R
   \<and> evaluate3 ex3_obj ex3_R = Some 10
   \<and> evaluate3 ex3_obj ex3_A = Some 10 \<and> evaluate3 ex3_obj ex3_B = Some 1"
  by code_simp

text \<open>
  C3.  The claim is that two axis neighbours are merged exactly when all stacked
  candidates give them equal labels.  On the grid of shape \<open>(2, 2, 1)\<close> the
  three-axis \<open>merge_ufd2\<close> puts the nodes 0 and 1, the voxels \<open>(0, 0, 0)\<close> and
  \<open>(0, 1, 0)\<close>, into one set although the third candidate labels them 0 and 1, and
  leaves node 3, the voxel \<open>(1, 1, 0)\<close>, alone although all candidates agree on it
  and its neighbour \<open>(0, 1, 0)\<close>.
\<close>

theorem fusion3_merge_ufd2_wrong_pairs:
  "fusion3_merge_ufd2 ex3k_obj (ufd_construct 4) ex3k_labels
     = Some \<lparr>parents = [0, 0, 0, 3], ranks = [1, 0, 0, 0], numberOfSets = 2\<rparr>
   \<and> xat4 ex3k_labels 0 0 0 2 = Some 0 \<and> xat4 ex3k_labels 0 1 0 2 = Some 1
   \<and> xview ex3k_labels 0 = Some \<lparr>xshape = [2, 2, 1], xdata = [0, 0, 0, 0]\<rparr>
   \<and> xview ex3k_labels 1 = Some \<lparr>xshape = [2, 2, 1], xdata = [0, 0, 0, 0]\<rparr>
   \<and> xview ex3k_labels 2 = Some \<lparr>xshape = [2, 2, 1], xdata = [0, 1, 0, 1]\<rparr>"
  by code_simp

text \<open>
  C4.  The claim is that the contracted objective gives each pair of distinct
  components the sum of the weights of all in-bounds pairs \<open>(p, offset_k)\<close> between
  them.  On the grid of shape \<open>(1, 1, 3)\<close> with three singleton components, the
  three-axis \<open>_build_\<close> hands the solver an objective whose only lifted edge joins
  the components 0 and 1; the pair of the voxels \<open>(0, 0, 1)\<close> and \<open>(0, 0, 2)\<close>,
  of weight 10 and between the components 1 and 2, is missing.
\<close>

theorem fusion3_build_misses_pairs:
  "fusion3_build ex3_obj ex3_solver (ufd_construct 3) (alloc_res3 [1, 1, 3])
     = Some (\<lparr>parents = [0, 1, 2], ranks = [0, 0, 0], numberOfSets = 3\<rparr>,
             \<lparr>xshape = [1, 1, 3], xdata = [0, 1, 2]\<rparr>,
             \<lparr>graph = \<lparr>numberOfNodes = 3, edges = [(0, 1), (1, 2)]\<rparr>,
              lifted = [((0, 1), 1)]\<rparr>,
             [0, 0, 1], 0)
   \<and> xat4 (weights ex3_obj) 0 0 1 0 = Some 10
   \<and> xat2 (offsets ex3_obj) 0 2 = Some 1"
  by code_simp

section \<open>The selection rule of the K-candidate fuse\<close>

text \<open>
  The two-candidate \<open>fuse\<close> compares the contracted energy with
  \<open>std::min(e_a, e_b)\<close>, two energies as \<open>evaluate\<close> returned them
  (\<open>fusion2_fuse_char\<close> above gives its rule: the contracted solution when its energy
  is strictly smaller, else the first candidate when its energy is strictly the
  smaller, else the second).  The K-candidate \<open>fuse\<close> keeps the best energy in the
  \<open>float\<close> \<open>best_e\<close>, so every later comparison is with a narrowed energy.
\<close>

text \<open>
  C5.  The claim is that the contracted solution is written to the result only when
  its energy is strictly below the smallest candidate energy, and that on an exact tie a
  candidate is copied.  On the one-by-three grid with the costs \<open>2^24\<close> and 3, the
  single candidate \<open>[5, 6, 7]\<close> has the energy \<open>2^24 + 3\<close>, and so has the solver's
  labeling of the contracted graph, which gives each of the three components its own
  label: an exact tie.  \<open>best_e\<close> holds \<open>2^24 + 4\<close>, the contracted energy is
  below it, and the K-candidate \<open>fuse\<close> returns the contracted solution
  \<open>[0, 1, 2]\<close>, not the candidate.
\<close>

theorem fuse_k_tie_takes_contracted:
  "map_option fst
     (fusion2_fuse_k (PixelWiseLmcConnetedComponentsFusion exup_obj solver_split) exup_stack)
     = Some \<lparr>xshape = [1, 3], xdata = [0, 1, 2]\<rparr>
   \<and> xview exup_stack 0 = Some \<lparr>xshape = [1, 3], xdata = [5, 6, 7]\<rparr>
   \<and> cand_energy (evaluate2 exup_obj) exup_stack 0 = Some 16777219
   \<and> fusion2_merge_ufd2 exup_obj (ufd_construct 3) exup_stack = Some (ufd_construct 3)
   \<and> fusion2_build exup_obj solver_split (ufd_construct 3) (alloc_res [1, 3])
       = Some (\<lparr>parents = [0, 1, 2], ranks = [0, 0, 0], numberOfSets = 3\<rparr>,
               \<lparr>xshape = [1, 3], xdata = [0, 1, 2]\<rparr>,
               \<lparr>graph = \<lparr>numberOfNodes = 3, edges = [(0, 1), (1, 2)]\<rparr>,
                lifted = [((0, 1), 16777216), ((1, 2), 3)]\<rparr>,
               [0, 1, 2], 16777219)
   \<and> to_float 16777219 = Finite 16777220"
  by code_simp

text \<open>
  C10.  The claim is that the K-candidate \<open>fuse\<close>, when the contracted solution
  is not strictly better, returns the candidate of the lowest index among those of
  minimal energy.  On the one-by-three grid with the costs \<open>2^24\<close> and 1, the first
  candidate \<open>[3, 4, 5]\<close> has the energy \<open>2^24 + 1\<close> and the second, \<open>[3, 4, 4]\<close>,
  the energy \<open>2^24\<close>.  \<open>best_e\<close> holds \<open>2^24\<close> after the first candidate, the
  second is not below it, and with a contracted energy of \<open>2^24 + 1\<close> the
  K-candidate \<open>fuse\<close> returns the first candidate, which is not one of minimal
  energy.
\<close>

theorem fuse_k_keeps_costlier_candidate:
  "map_option fst
     (fusion2_fuse_k (PixelWiseLmcConnetedComponentsFusion exdown_obj solver_split)
        exdown_stack)
     = Some \<lparr>xshape = [1, 3], xdata = [3, 4, 5]\<rparr>
   \<and> xview exdown_stack 0 = Some \<lparr>xshape = [1, 3], xdata = [3, 4, 5]\<rparr>
   \<and> xview exdown_stack 1 = Some \<lparr>xshape = [1, 3], xdata = [3, 4, 4]\<rparr>
   \<and> cand_energy (evaluate2 exdown_obj) exdown_stack 0 = Some 16777217
   \<and> cand_energy (evaluate2 exdown_obj) exdown_stack 1 = Some 16777216
   \<and> fusion2_merge_ufd2 exdown_obj (ufd_construct 3) exdown_stack = Some (ufd_construct 3)
   \<and> fusion2_build exdown_obj solver_split (ufd_construct 3) (alloc_res [1, 3])
       = Some (\<lparr>parents = [0, 1, 2], ranks = [0, 0, 0], numberOfSets = 3\<rparr>,
               \<lparr>xshape = [1, 3], xdata = [0, 1, 2]\<rparr>,
               \<lparr>graph = \<lparr>numberOfNodes = 3, edges = [(0, 1), (1, 2)]\<rparr>,
                lifted = [((0, 1), 16777216), ((1, 2), 1)]\<rparr>,
               [0, 1, 2], 16777217)
   \<and> to_float 16777217 = Finite 16777216"
  by code_simp

text \<open>
  The three-axis \<open>fuse\<close> copies a candidate into its \<open>int\<close> result: a label that
  needs more than 31 bits does not arrive as it was (the two-axis result holds
  \<open>uint64_t\<close>).  With the candidate \<open>[2^31, 2^31 + 1]\<close> given twice and a contracted
  energy equal to the candidate's, the candidate is copied and the result holds
  negative numbers.
\<close>

lemma fusion3_fuse_narrows_labels:
  "map_option fst
     (fusion3_fuse (PixelWiseLmcConnetedComponentsFusion ex3s_obj solver_split)
        ex3s_big ex3s_big)
     = Some \<lparr>xshape = [2, 1, 1], xdata = [- 2147483648, - 2147483647]\<rparr>"
proof -
  let ?u = "\<lparr>parents = [0, 1], ranks = [0, 0], numberOfSets = 2\<rparr>"
  have o: "shape ex3s_obj = [2, 1, 1]" "n_variables ex3s_obj = 2" by code_simp+
  have r: "ufd_reset (ufd_construct 2) = ?u" by code_simp
  have m: "fusion3_merge_ufd ex3s_obj ?u ex3s_big ex3s_big = Some ?u"
    by (simp add: fusion3_merge_ufd_def ex3s_obj_def ex3s_big_def PixelWiseLmcObjective_def
        xat3_def upt_rec Let_def)
  have e: "evaluate3 ex3s_obj ex3s_big = Some 1"
    by (simp add: evaluate3_def ex3s_obj_def ex3s_big_def PixelWiseLmcObjective_def
        xat3_def xat4_def xat2_def upt_rec Let_def)
  have b: "fusion3_build ex3s_obj solver_split ?u (alloc_res3 [2, 1, 1])
             = Some (?u, \<lparr>xshape = [2, 1, 1], xdata = [0, 1]\<rparr>,
                     \<lparr>graph = \<lparr>numberOfNodes = 2, edges = [(0, 1)]\<rparr>,
                      lifted = [((0, 1), 1)]\<rparr>, [0, 1], 1)"
    by code_simp
  have c: "copy_into3 ex3s_big \<lparr>xshape = [2, 1, 1], xdata = [0, 1]\<rparr>
             = Some \<lparr>xshape = [2, 1, 1], xdata = [- 2147483648, - 2147483647]\<rparr>"
    by (simp add: copy_into3_def ex3s_big_def int32_of_nat_def)
  show ?thesis
    using o r m e b c
    by (simp add: fusion3_fuse_def PixelWiseLmcConnetedComponentsFusion_def Let_def
        fuse_callback3_def)
qed

section \<open>The lifetime of the solver in optimize\<close>

text \<open>
  C9.  The claim is that the solver created inside \<open>optimize\<close> is released on every
  exit path, also when the solver raises.  At this input the solver raises, and one
  solver is alive after the call where none was before.
\<close>

theorem optimize_leaks_on_solver_error:
  "optimize 2 ex2_obj create_unit solve_raises ex2_A False 0 = (None, 1)"
  by code_simp

text \<open>
  C9, as the code has it.  Once the factory has created the solver, the solver is
  released before \<open>optimize\<close> returns exactly when the solver's \<open>optimize\<close>
  returns; when it raises, \<open>optimize\<close> ends with the error and the solver is still
  alive.
\<close>

theorem optimize_releases_unless_solver_raises:
  assumes "grid_objective DIM obj = Some gridGraphObj"
    and "grid_node_labels obj labels = Some gridGraphNodeLabels"
    and "create gridGraphObj = Some solver"
  shows "snd (optimize DIM obj create solve labels verbose live)
           = (if solve solver gridGraphNodeLabels verbose = None then live + 1 else live)
         \<and> (solve solver gridGraphNodeLabels verbose = None
              \<longrightarrow> fst (optimize DIM obj create solve labels verbose live) = None)"
  using assms by (auto simp: optimize_def Let_def split: option.splits)

theorem optimize_releases_unless_solver_raises_witness:
  "grid_objective 2 ex2_obj
     = Some \<lparr>graph = \<lparr>numberOfNodes = 2, edges = [(0, 1)]\<rparr>, lifted = [((0, 1), 1)]\<rparr>
   \<and> grid_node_labels ex2_obj ex2_A = Some [0, 1]
   \<and> create_unit \<lparr>graph = \<lparr>numberOfNodes = 2, edges = [(0, 1)]\<rparr>, lifted = [((0, 1), 1)]\<rparr>
       = Some ()
   \<and> snd (optimize 2 ex2_obj create_unit solve_keep ex2_A True 0) = 0
   \<and> fst (optimize 2 ex2_obj create_unit solve_keep ex2_A True 0) = Some ex2_A"
proof -
  have h1: "grid_objective 2 ex2_obj
     = Some \<lparr>graph = \<lparr>numberOfNodes = 2, edges = [(0, 1)]\<rparr>, lifted = [((0, 1), 1)]\<rparr>"
    by code_simp
  have h2: "grid_node_labels ex2_obj ex2_A = Some [0, 1]" by code_simp
  have h3: "create_unit \<lparr>graph = \<lparr>numberOfNodes = 2, edges = [(0, 1)]\<rparr>,
                         lifted = [((0, 1), 1)]\<rparr> = Some ()"
    by code_simp
  have h4: "solve_keep () [0, 1] True \<noteq> None" by code_simp
  have h5: "fst (optimize 2 ex2_obj create_unit solve_keep ex2_A True 0) = Some ex2_A"
    by code_simp
  show ?thesis
    using optimize_releases_unless_solver_raises
            [where create = create_unit and solve = solve_keep and verbose = True
               and live = 0, OF h1 h2 h3]
      h1 h2 h3 h4 h5
    by simp
qed

section \<open>The ground-truth edge tensor\<close>

lemma foldM_upt_total:
  assumes "I 0 s"
    and "\<And>i t. i < n \<Longrightarrow> I i t \<Longrightarrow> \<exists>t'. f i t = Some t' \<and> I (Suc i) t'"
  shows "\<exists>s'. foldM f [0..<n] s = Some s' \<and> I n s'"
  using assms(2)
proof (induction n)
  case 0
  then show ?case using assms(1) by simp
next
  case (Suc n)
  then obtain t where t: "foldM f [0..<n] s = Some t" "I n t" by force
  from Suc.prems [of n t] t(2) obtain t' where "f n t = Some t'" "I (Suc n) t'" by auto
  then show ?case using t(1) by (simp add: foldM_append)
qed

lemma idx2_inj:
  assumes "j < (n::nat)" and "j' < n" and "i * n + j = i' * n + j'"
  shows "i = i' \<and> j = j'"
proof -
  have "(i * n + j) div n = i" "(i' * n + j') div n = i'"
       "(i * n + j) mod n = j" "(i' * n + j') mod n = j'"
    using assms(1,2) by simp_all
  then show ?thesis using assms(3) by metis
qed

lemma xset3_xat3:
  assumes sh: "xshape t = [n0, n1, n2]" and wf: "wf_tensor t"
    and r: "i < n0" "j < n1" "k < n2"
  shows "\<exists>t'. xset3 t i j k v = Some t' \<and> xshape t' = [n0, n1, n2] \<and> wf_tensor t'
          \<and> (\<forall>a<n0. \<forall>b<n1. \<forall>c<n2.
                xat3 t' a b c = (if a = i \<and> b = j \<and> c = k then Some v else xat3 t a b c))"
proof -
  have len: "length (xdata t) = n0 * n1 * n2" using sh wf by (simp add: wf_tensor_def)
  have lt: "(a * n1 + b) * n2 + c < n0 * n1 * n2" if "a < n0" "b < n1" "c < n2" for a b c
    using idx2_less [OF idx2_less [OF that(1,2)] that(3)] by (simp add: mult.assoc)
  let ?t' = "t\<lparr>xdata := (xdata t)[(i * n1 + j) * n2 + k := v]\<rparr>"
  have s: "xset3 t i j k v = Some ?t'"
    using sh r lt [OF r] len by (simp add: xset3_def)
  have "xat3 ?t' a b c = (if a = i \<and> b = j \<and> c = k then Some v else xat3 t a b c)"
    if "a < n0" "b < n1" "c < n2" for a b c
  proof (cases "a = i \<and> b = j \<and> c = k")
    case True
    then show ?thesis using sh r lt [OF r] len by (simp add: xat3_def)
  next
    case False
    have "(a * n1 + b) * n2 + c \<noteq> (i * n1 + j) * n2 + k"
    proof
      assume e: "(a * n1 + b) * n2 + c = (i * n1 + j) * n2 + k"
      from idx2_inj [OF that(3) r(3) e] have "a * n1 + b = i * n1 + j" "c = k" by simp_all
      with idx2_inj [OF that(2) r(2)] False show False by blast
    qed
    then show ?thesis using sh that lt [OF that] len False by (auto simp add: xat3_def)
  qed
  then show ?thesis using s sh wf by (auto simp: wf_tensor_def)
qed


lemma edge_gt_char:
  assumes g: "xshape e_gt = [s0, s1]" "wf_tensor e_gt"
    and o: "xshape e_offsets = [K, 2]" "wf_tensor e_offsets"
  shows "\<exists>result. pixel_wise_lmc_edge_gt_2d uninit e_gt e_offsets = Some result
          \<and> xshape result = [s0, s1, K]
          \<and> (\<forall>p0<s0. \<forall>p1<s1. \<forall>k<K.
                xat3 result p0 p1 k = Some (
                  let q0 = int p0 + the (xat2 e_offsets k 0);
                      q1 = int p1 + the (xat2 e_offsets k 1)
                  in if 0 \<le> q0 \<and> q0 < int s0 \<and> 0 \<le> q1 \<and> q1 < int s1
                     then the (xat2 e_gt p0 p1) \<noteq> the (xat2 e_gt (nat q0) (nat q1))
                     else uninit ((p0 * s1 + p1) * K + k)))"
proof -
  define inb where "inb p0 p1 k \<longleftrightarrow>
      0 \<le> int p0 + the (xat2 e_offsets k 0) \<and> int p0 + the (xat2 e_offsets k 0) < int s0
    \<and> 0 \<le> int p1 + the (xat2 e_offsets k 1) \<and> int p1 + the (xat2 e_offsets k 1) < int s1"
    for p0 p1 k
  define val where "val p0 p1 k \<longleftrightarrow>
      the (xat2 e_gt p0 p1) \<noteq> the (xat2 e_gt (nat (int p0 + the (xat2 e_offsets k 0)))
                                            (nat (int p1 + the (xat2 e_offsets k 1))))"
    for p0 p1 k
  define good where "good t \<longleftrightarrow> xshape t = [s0, s1, K] \<and> wf_tensor t" for t :: "bool xtensor"
  define body where "body p0 p1 p_label = (\<lambda>offset_index result. do {
         o0 \<leftarrow> xat2 e_offsets offset_index 0;
         o1 \<leftarrow> xat2 e_offsets offset_index 1;
         let q0 = int p0 + o0;
         let q1 = int p1 + o1;
         if q0 \<ge> 0 \<and> q0 < int s0 \<and> q1 \<ge> 0 \<and> q1 < int s1
         then do {
           q_label \<leftarrow> xat2 e_gt (nat q0) (nat q1);
           xset3 result p0 p1 offset_index (p_label \<noteq> q_label)
         }
         else Some result
       })" for p0 p1 :: nat and p_label :: nat
  have step: "\<exists>t'. body p0 p1 (the (xat2 e_gt p0 p1)) k t = Some t' \<and> good t'
      \<and> (\<forall>a<s0. \<forall>b<s1. \<forall>c<K. xat3 t' a b c
            = (if a = p0 \<and> b = p1 \<and> c = k \<and> inb p0 p1 k then Some (val p0 p1 k)
               else xat3 t a b c))"
    if "p0 < s0" "p1 < s1" "k < K" "good t" for p0 p1 k t
  proof -
    have "\<exists>o0. xat2 e_offsets k 0 = Some o0" "\<exists>o1. xat2 e_offsets k 1 = Some o1"
      using that(3) by (simp_all add: xat2_wf [OF o(2,1)])
    then obtain o0 o1 where ok: "xat2 e_offsets k 0 = Some o0" "xat2 e_offsets k 1 = Some o1"
      by blast
    have inb: "inb p0 p1 k = (0 \<le> int p0 + o0 \<and> int p0 + o0 < int s0
                              \<and> 0 \<le> int p1 + o1 \<and> int p1 + o1 < int s1)"
      using ok by (simp add: inb_def)
    show ?thesis
    proof (cases "inb p0 p1 k")
      case True
      then have n: "nat (int p0 + o0) < s0" "nat (int p1 + o1) < s1"
        by (auto simp: inb)
      then have "\<exists>lq. xat2 e_gt (nat (int p0 + o0)) (nat (int p1 + o1)) = Some lq"
        by (simp add: xat2_wf [OF g(2,1)])
      then obtain lq where q: "xat2 e_gt (nat (int p0 + o0)) (nat (int p1 + o1)) = Some lq"
        by blast
      have v: "val p0 p1 k = (the (xat2 e_gt p0 p1) \<noteq> lq)"
        using ok q by (simp add: val_def)
      have b: "body p0 p1 (the (xat2 e_gt p0 p1)) k t = xset3 t p0 p1 k (val p0 p1 k)"
        using True ok q by (simp add: body_def v inb Let_def)
      from xset3_xat3 [of t s0 s1 K p0 p1 k "val p0 p1 k"] that
      show ?thesis unfolding b good_def using True by auto
    next
      case False
      have b: "body p0 p1 (the (xat2 e_gt p0 p1)) k t = Some t"
        using False ok by (auto simp add: body_def inb Let_def)
      show ?thesis unfolding b using that(4) False by auto
    qed
  qed
  have inner: "\<exists>t'. foldM (body p0 p1 (the (xat2 e_gt p0 p1))) [0..<K] t = Some t' \<and> good t'
      \<and> (\<forall>a<s0. \<forall>b<s1. \<forall>c<K. xat3 t' a b c
            = (if a = p0 \<and> b = p1 \<and> inb p0 p1 c then Some (val p0 p1 c) else xat3 t a b c))"
    if "p0 < s0" "p1 < s1" "good t" for p0 p1 t
  proof -
    let ?I = "\<lambda>i t'. good t' \<and> (\<forall>a<s0. \<forall>b<s1. \<forall>c<K. xat3 t' a b c
            = (if a = p0 \<and> b = p1 \<and> c < i \<and> inb p0 p1 c then Some (val p0 p1 c)
               else xat3 t a b c))"
    have "\<exists>t'. foldM (body p0 p1 (the (xat2 e_gt p0 p1))) [0..<K] t = Some t' \<and> ?I K t'"
    proof (rule foldM_upt_total [where I = ?I])
      show "?I 0 t" using that by simp
    next
      fix i u assume i: "i < K" and u: "?I i u"
      from step [OF that(1,2) i] u obtain u' where
        u': "body p0 p1 (the (xat2 e_gt p0 p1)) i u = Some u'" "good u'"
        "\<forall>a<s0. \<forall>b<s1. \<forall>c<K. xat3 u' a b c
            = (if a = p0 \<and> b = p1 \<and> c = i \<and> inb p0 p1 i then Some (val p0 p1 i)
               else xat3 u a b c)"
        by blast
      have "?I (Suc i) u'" using u u'(2,3) by (auto simp: less_Suc_eq)
      then show "\<exists>t'. body p0 p1 (the (xat2 e_gt p0 p1)) i u = Some t' \<and> ?I (Suc i) t'"
        using u'(1) by blast
    qed
    then show ?thesis by auto
  qed
  have middle: "\<exists>t'. foldM (\<lambda>p1 result. do {
                     p_label \<leftarrow> xat2 e_gt p0 p1;
                     foldM (body p0 p1 p_label) [0..<K] result }) [0..<s1] t = Some t' \<and> good t'
      \<and> (\<forall>a<s0. \<forall>b<s1. \<forall>c<K. xat3 t' a b c
            = (if a = p0 \<and> inb a b c then Some (val a b c) else xat3 t a b c))"
    if "p0 < s0" "good t" for p0 t
  proof -
    let ?f = "\<lambda>p1 result. do {
                     p_label \<leftarrow> xat2 e_gt p0 p1;
                     foldM (body p0 p1 p_label) [0..<K] result }"
    let ?I = "\<lambda>i t'. good t' \<and> (\<forall>a<s0. \<forall>b<s1. \<forall>c<K. xat3 t' a b c
            = (if a = p0 \<and> b < i \<and> inb a b c then Some (val a b c) else xat3 t a b c))"
    have "\<exists>t'. foldM ?f [0..<s1] t = Some t' \<and> ?I s1 t'"
    proof (rule foldM_upt_total [where I = ?I])
      show "?I 0 t" using that by simp
    next
      fix i u assume i: "i < s1" and u: "?I i u"
      have f: "?f i u = foldM (body p0 i (the (xat2 e_gt p0 i))) [0..<K] u"
        using that(1) i by (simp add: xat2_wf [OF g(2,1)])
      from inner [OF that(1) i, of u] u obtain u' where
        u': "foldM (body p0 i (the (xat2 e_gt p0 i))) [0..<K] u = Some u'" "good u'"
        "\<forall>a<s0. \<forall>b<s1. \<forall>c<K. xat3 u' a b c
            = (if a = p0 \<and> b = i \<and> inb p0 i c then Some (val p0 i c) else xat3 u a b c)"
        by blast
      have "?I (Suc i) u'" using u u'(2,3) by (auto simp: less_Suc_eq)
      then show "\<exists>t'. ?f i u = Some t' \<and> ?I (Suc i) t'"
        using u'(1) f by simp
    qed
    then show ?thesis by auto
  qed
  let ?t0 = "\<lparr> xshape = [s0, s1, K], xdata = map uninit [0..<s0 * s1 * K] \<rparr>"
  have g0: "good ?t0" by (simp add: good_def wf_tensor_def)
  have at0: "xat3 ?t0 a b c = Some (uninit ((a * s1 + b) * K + c))"
    if "a < s0" "b < s1" "c < K" for a b c
    using idx2_less [OF idx2_less [OF that(1,2)] that(3)] that
    by (simp add: xat3_def mult.assoc)
  let ?F = "\<lambda>p0. foldM (\<lambda>p1 result. do {
                     p_label \<leftarrow> xat2 e_gt p0 p1;
                     foldM (body p0 p1 p_label) [0..<K] result }) [0..<s1]"
  let ?J = "\<lambda>i t'. good t' \<and> (\<forall>a<s0. \<forall>b<s1. \<forall>c<K. xat3 t' a b c
            = (if a < i \<and> inb a b c then Some (val a b c) else xat3 ?t0 a b c))"
  have outer: "\<exists>t'. foldM ?F [0..<s0] ?t0 = Some t' \<and> ?J s0 t'"
  proof (rule foldM_upt_total [where I = ?J])
    show "?J 0 ?t0" using g0 by simp
  next
    fix i u assume i: "i < s0" and u: "?J i u"
    from middle [OF i, of u] u obtain u' where
      u': "?F i u = Some u'" "good u'"
      "\<forall>a<s0. \<forall>b<s1. \<forall>c<K. xat3 u' a b c
          = (if a = i \<and> inb a b c then Some (val a b c) else xat3 u a b c)"
      by blast
    have "?J (Suc i) u'" using u u'(2,3) by (auto simp: less_Suc_eq)
    then show "\<exists>t'. ?F i u = Some t' \<and> ?J (Suc i) t'" using u'(1) by blast
  qed
  then obtain r where r: "foldM ?F [0..<s0] ?t0 = Some r" "good r"
    "\<forall>a<s0. \<forall>b<s1. \<forall>c<K. xat3 r a b c
          = (if inb a b c then Some (val a b c) else xat3 ?t0 a b c)"
    by auto
  have run: "pixel_wise_lmc_edge_gt_2d uninit e_gt e_offsets = Some r"
    unfolding pixel_wise_lmc_edge_gt_2d_def using r(1)
    by (simp add: nth_opt_def g o Let_def body_def)
  have "xat3 r a b c = Some (
                  let q0 = int a + the (xat2 e_offsets c 0);
                      q1 = int b + the (xat2 e_offsets c 1)
                  in if 0 \<le> q0 \<and> q0 < int s0 \<and> 0 \<le> q1 \<and> q1 < int s1
                     then the (xat2 e_gt a b) \<noteq> the (xat2 e_gt (nat q0) (nat q1))
                     else uninit ((a * s1 + b) * K + c))"
    if "a < s0" "b < s1" "c < K" for a b c
    using r(3) that at0 [OF that] by (auto simp: inb_def val_def Let_def)
  then show ?thesis using run r(2) by (auto simp: good_def)
qed


text \<open>
  C7.  The claim is that every entry of the ground-truth edge tensor whose neighbour
  is outside the grid is false.  On the one-by-two grid with the offset \<open>(0, 1)\<close>
  the neighbour of the pixel \<open>(0, 1)\<close> is outside the grid; the entry is never
  written, and with an allocation that holds \<open>true\<close> there it is true.
\<close>

theorem edge_gt_out_of_bounds_not_false:
  "pixel_wise_lmc_edge_gt_2d uninit_true ex2_A ex2_offsets
     = Some \<lparr>xshape = [1, 2, 1], xdata = [True, True]\<rparr>
   \<and> xat3 \<lparr>xshape = [1, 2, 1], xdata = [True, True]\<rparr> 0 1 0 = Some True
   \<and> xat2 ex2_offsets 0 0 = Some 0 \<and> xat2 ex2_offsets 0 1 = Some 1"
  by code_simp

text \<open>
  C7, as the code has it.  For a two-axis ground-truth labeling and a list of \<open>K\<close>
  offsets, \<open>pixel_wise_lmc_edge_gt_2d\<close> returns a boolean tensor of the grid's shape
  with a trailing axis of length \<open>K\<close>; the entry \<open>(p, k)\<close> whose neighbour
  \<open>p + offset_k\<close> is inside the grid is true exactly when the two labels differ, and
  an entry whose neighbour is outside the grid is not written: it holds what the
  allocation held at that position.
\<close>

theorem edge_gt_entries:
  assumes "xshape e_gt = [s0, s1]" and "wf_tensor e_gt"
    and "xshape e_offsets = [K, 2]" and "wf_tensor e_offsets"
  shows "\<exists>result. pixel_wise_lmc_edge_gt_2d uninit e_gt e_offsets = Some result
          \<and> xshape result = [s0, s1, K]
          \<and> (\<forall>p0<s0. \<forall>p1<s1. \<forall>k<K.
                xat3 result p0 p1 k = Some (
                  let q0 = int p0 + the (xat2 e_offsets k 0);
                      q1 = int p1 + the (xat2 e_offsets k 1)
                  in if 0 \<le> q0 \<and> q0 < int s0 \<and> 0 \<le> q1 \<and> q1 < int s1
                     then the (xat2 e_gt p0 p1) \<noteq> the (xat2 e_gt (nat q0) (nat q1))
                     else uninit ((p0 * s1 + p1) * K + k)))"
  using assms by (rule edge_gt_char)

theorem edge_gt_entries_witness:
  "xshape ex2_A = [1, 2] \<and> wf_tensor ex2_A
   \<and> xshape ex2_offsets = [1, 2] \<and> wf_tensor ex2_offsets
   \<and> (\<exists>result. pixel_wise_lmc_edge_gt_2d uninit_true ex2_A ex2_offsets = Some result
          \<and> xshape result = [1, 2, 1]
          \<and> xat3 result 0 0 0 = Some True \<and> xat3 result 0 1 0 = Some (uninit_true 1))"
proof -
  have h1: "xshape ex2_A = [1, 2]" by code_simp
  have h2: "wf_tensor ex2_A" by code_simp
  have h3: "xshape ex2_offsets = [1, 2]" by code_simp
  have h4: "wf_tensor ex2_offsets" by code_simp
  from edge_gt_entries [OF h1 h2 h3 h4, of uninit_true] obtain result where
    r: "pixel_wise_lmc_edge_gt_2d uninit_true ex2_A ex2_offsets = Some result"
       "xshape result = [1, 2, 1]"
    and e: "\<forall>p0<1. \<forall>p1<2. \<forall>k<1.
                xat3 result p0 p1 k = Some (
                  let q0 = int p0 + the (xat2 ex2_offsets k 0);
                      q1 = int p1 + the (xat2 ex2_offsets k 1)
                  in if 0 \<le> q0 \<and> q0 < int 1 \<and> 0 \<le> q1 \<and> q1 < int 2
                     then the (xat2 ex2_A p0 p1) \<noteq> the (xat2 ex2_A (nat q0) (nat q1))
                     else uninit_true ((p0 * 2 + p1) * 1 + k))"
    by blast
  have "xat3 result 0 0 0 = Some True"
    using e [rule_format, of 0 0 0]
    by (simp add: xat2_def ex2_A_def ex2_offsets_def)
  moreover have "xat3 result 0 1 0 = Some (uninit_true 1)"
    using e [rule_format, of 0 1 0]
    by (simp add: xat2_def ex2_A_def ex2_offsets_def)
  ultimately show ?thesis using r h1 h2 h3 h4 by blast
qed

section \<open>Representatives in the forest\<close>

lemma is_rep_root: "is_rep ps x r \<Longrightarrow> r < length ps \<and> ps ! r = r"
  by (induction rule: is_rep.induct) auto

lemma is_rep_dom: "is_rep ps x r \<Longrightarrow> x < length ps"
  by (cases rule: is_rep.cases) auto

lemma is_rep_det: "is_rep ps x r \<Longrightarrow> is_rep ps x r' \<Longrightarrow> r = r'"
proof (induction arbitrary: r' rule: is_rep.induct)
  case (root x)
  then show ?case by (auto elim: is_rep.cases)
next
  case (step x r)
  from step.prems step.hyps(1,2) have "is_rep ps (ps ! x) r'"
    by (auto elim: is_rep.cases)
  then show ?case using step.IH by simp
qed

lemma is_rep_of_root: "is_rep ps r r' \<Longrightarrow> ps ! r = r \<Longrightarrow> r' = r"
  by (auto elim: is_rep.cases)

lemma find_root_is_rep: "find_root fuel ps x = Some r \<Longrightarrow> is_rep ps x r"
proof (induction fuel arbitrary: x)
  case 0
  then show ?case by simp
next
  case (Suc fuel)
  then show ?case by (auto split: if_splits intro: is_rep.intros)
qed

text \<open>Redirecting a node to its own root changes no representative.\<close>

lemma is_rep_update:
  assumes xr: "is_rep ps x r"
  shows "is_rep (ps[x := r]) y s \<longleftrightarrow> is_rep ps y s"
proof
  note rr = is_rep_root [OF xr] and xd = is_rep_dom [OF xr]
  assume "is_rep (ps[x := r]) y s"
  then show "is_rep ps y s"
  proof (induction rule: is_rep.induct)
    case (root y)
    show ?case
    proof (cases "y = x")
      case True
      with root xd have "r = x" by simp
      then have "ps ! x = x" using rr by simp
      then show ?thesis using True xd by (auto intro: is_rep.root)
    next
      case False
      then show ?thesis using root by (auto intro: is_rep.root)
    qed
  next
    case (step y s)
    show ?case
    proof (cases "y = x")
      case True
      with step xd have "is_rep ps r s" by simp
      then have "s = r" using rr by (auto dest: is_rep_of_root)
      then show ?thesis using xr True by simp
    next
      case False
      then show ?thesis using step by (auto intro: is_rep.step)
    qed
  qed
next
  note rr = is_rep_root [OF xr] and xd = is_rep_dom [OF xr]
  assume "is_rep ps y s"
  then show "is_rep (ps[x := r]) y s"
  proof (induction rule: is_rep.induct)
    case (root y)
    then have "y = x \<Longrightarrow> r = x" using xr by (auto dest: is_rep_of_root)
    then show ?case using root by (cases "y = x") (auto intro: is_rep.root)
  next
    case (step y s)
    show ?case
    proof (cases "y = x")
      case True
      have "is_rep ps x s" using step.hyps True by (auto intro: is_rep.step)
      then have s: "s = r" using xr by (rule is_rep_det)
      have "r \<noteq> x" using step.hyps(2) True rr by auto
      then have "is_rep (ps[x := r]) r r" using rr by (auto intro: is_rep.root)
      then show ?thesis using True s xd \<open>r \<noteq> x\<close> by (auto intro: is_rep.step)
    next
      case False
      then show ?thesis using step by (auto intro: is_rep.step)
    qed
  qed
qed

lemma compress_is_rep:
  assumes "compress fuel ps x r = Some ps'" and "is_rep ps x r"
  shows "length ps' = length ps \<and> (\<forall>y s. is_rep ps' y s \<longleftrightarrow> is_rep ps y s)"
  using assms
proof (induction fuel arbitrary: ps x)
  case 0
  then show ?case by simp
next
  case (Suc fuel)
  show ?case
  proof (cases "x = r")
    case True
    then show ?thesis using Suc.prems by simp
  next
    case False
    then have c: "compress fuel (ps[x := r]) (ps ! x) r = Some ps'"
      using Suc.prems(1) by (simp split: if_splits)
    have "ps ! x \<noteq> x" using False Suc.prems(2) by (auto dest: is_rep_of_root)
    then have "is_rep ps (ps ! x) r" using Suc.prems(2) by (auto elim: is_rep.cases)
    then have "is_rep (ps[x := r]) (ps ! x) r"
      using is_rep_update [OF Suc.prems(2)] by simp
    from Suc.IH [OF c this] show ?thesis
      using is_rep_update [OF Suc.prems(2)] by simp
  qed
qed

lemma ufd_find_is_rep:
  assumes "ufd_find u x = Some (r, u')"
  shows "is_rep (parents u) x r"
    and "length (parents u') = length (parents u)"
    and "is_rep (parents u') y s \<longleftrightarrow> is_rep (parents u) y s"
    and "ranks u' = ranks u" and "numberOfSets u' = numberOfSets u"
proof -
  from assms obtain ps' where
    f: "find_root (Suc (length (parents u))) (parents u) x = Some r"
    and c: "compress (Suc (length (parents u))) (parents u) x r = Some ps'"
    and u': "u' = u\<lparr>parents := ps'\<rparr>"
    by (auto simp: ufd_find_def bind_eq_Some_conv)
  show r: "is_rep (parents u) x r" using f by (rule find_root_is_rep)
  from compress_is_rep [OF c r] u'
  show "length (parents u') = length (parents u)"
    and "is_rep (parents u') y s \<longleftrightarrow> is_rep (parents u) y s"
    by simp_all
  show "ranks u' = ranks u" "numberOfSets u' = numberOfSets u" using u' by simp_all
qed


section \<open>The invariant of the forest: the fuel suffices\<close>

lemma ufd_roots_finite [simp]: "finite (ufd_roots ps)"
  by (simp add: ufd_roots_def)

lemma ufd_inv_construct: "ufd_inv (ufd_construct n)"
proof -
  have "ufd_roots [0..<n] = {..<n}" by (auto simp: ufd_roots_def)
  then show ?thesis by (simp add: ufd_inv_def ufd_construct_def)
qed

lemma ufd_inv_reset: "ufd_inv (ufd_reset u)"
  by (simp add: ufd_reset_def ufd_inv_construct)

lemma ufd_inv_rank_le:
  "ufd_inv u \<Longrightarrow> y < length (parents u) \<Longrightarrow> ranks u ! y \<le> length (parents u)"
  by (fastforce simp: ufd_inv_def)

lemma ufd_inv_parent:
  assumes "ufd_inv u" and "x < length (parents u)"
  shows "parents u ! x < length (parents u)"
    and "parents u ! x \<noteq> x \<Longrightarrow> ranks u ! x < ranks u ! (parents u ! x)"
  using assms by (auto simp: ufd_inv_def)

lemma ufd_invI:
  assumes "length (ranks u) = length (parents u)"
    and "numberOfSets u = card (ufd_roots (parents u))"
    and "\<And>x. x < length (parents u) \<Longrightarrow> parents u ! x < length (parents u)"
    and "\<And>x. x < length (parents u) \<Longrightarrow> parents u ! x \<noteq> x
           \<Longrightarrow> ranks u ! x < ranks u ! (parents u ! x)"
    and "\<And>x. x < length (parents u)
           \<Longrightarrow> ranks u ! x + card (ufd_roots (parents u)) \<le> length (parents u)"
  shows "ufd_inv u"
  using assms by (simp add: ufd_inv_def)

lemma ufd_inv_basic:
  assumes "ufd_inv u"
  shows "length (ranks u) = length (parents u)"
    and "numberOfSets u = card (ufd_roots (parents u))"
    and "x < length (parents u)
           \<Longrightarrow> ranks u ! x + card (ufd_roots (parents u)) \<le> length (parents u)"
  using assms by (auto simp: ufd_inv_def)

lemma find_root_total:
  assumes inv: "ufd_inv u" and x: "x < length (parents u)"
    and fuel: "length (parents u) - ranks u ! x < fuel"
  shows "\<exists>r. find_root fuel (parents u) x = Some r"
  using x fuel
proof (induction fuel arbitrary: x)
  case 0
  then show ?case by simp
next
  case (Suc fuel)
  show ?case
  proof (cases "parents u ! x = x")
    case True
    then show ?thesis using Suc.prems by simp
  next
    case False
    let ?y = "parents u ! x"
    have y: "?y < length (parents u)" "ranks u ! x < ranks u ! ?y"
      using ufd_inv_parent [OF inv Suc.prems(1)] False by simp_all
    have "ranks u ! ?y \<le> length (parents u)" using ufd_inv_rank_le [OF inv y(1)] .
    then have "length (parents u) - ranks u ! ?y < fuel" using Suc.prems(2) y(2) by linarith
    from Suc.IH [OF y(1) this] show ?thesis using Suc.prems(1) False by simp
  qed
qed

lemma is_rep_rank:
  assumes "is_rep (parents u) x r" and "ufd_inv u" and "x \<noteq> r"
  shows "ranks u ! x < ranks u ! r"
  using assms
proof (induction rule: is_rep.induct)
  case (root x)
  then show ?case by simp
next
  case (step x r)
  have "ranks u ! x < ranks u ! (parents u ! x)"
    using step.hyps(1,2) step.prems(1) by (simp add: ufd_inv_def)
  then show ?case using step.IH step.prems(1) by (cases "parents u ! x = r") auto
qed

text \<open>One step of path compression keeps the invariant and the roots.\<close>

lemma ufd_inv_redirect:
  assumes inv: "ufd_inv u" and xr: "is_rep (parents u) x r" and ne: "x \<noteq> r"
  shows "ufd_inv (u\<lparr>parents := (parents u)[x := r]\<rparr>)"
    and "ufd_roots ((parents u)[x := r]) = ufd_roots (parents u)"
proof -
  note rr = is_rep_root [OF xr] and xd = is_rep_dom [OF xr]
  have xn: "parents u ! x \<noteq> x" using ne xr by (auto dest: is_rep_of_root)
  show roots: "ufd_roots ((parents u)[x := r]) = ufd_roots (parents u)"
    using xn ne xd by (auto simp: ufd_roots_def nth_list_update split: if_splits)
  have rk: "ranks u ! x < ranks u ! r" using is_rep_rank [OF xr inv ne] .
  show "ufd_inv (u\<lparr>parents := (parents u)[x := r]\<rparr>)"
  proof (rule ufd_invI)
    fix y assume y: "y < length (parents (u\<lparr>parents := (parents u)[x := r]\<rparr>))"
    then have y': "y < length (parents u)" by simp
    show "parents (u\<lparr>parents := (parents u)[x := r]\<rparr>) ! y
            < length (parents (u\<lparr>parents := (parents u)[x := r]\<rparr>))"
      using rr ufd_inv_parent(1) [OF inv y'] y' xd by (simp add: nth_list_update)
    show "ranks (u\<lparr>parents := (parents u)[x := r]\<rparr>) ! y
            + card (ufd_roots (parents (u\<lparr>parents := (parents u)[x := r]\<rparr>)))
            \<le> length (parents (u\<lparr>parents := (parents u)[x := r]\<rparr>))"
      using ufd_inv_basic(3) [OF inv y'] roots by simp
    assume "parents (u\<lparr>parents := (parents u)[x := r]\<rparr>) ! y \<noteq> y"
    then show "ranks (u\<lparr>parents := (parents u)[x := r]\<rparr>) ! y
            < ranks (u\<lparr>parents := (parents u)[x := r]\<rparr>)
                ! (parents (u\<lparr>parents := (parents u)[x := r]\<rparr>) ! y)"
      using rk ufd_inv_parent(2) [OF inv y'] y' xd
      by (cases "y = x") (simp_all add: nth_list_update)
  qed (use ufd_inv_basic [OF inv] roots in simp_all)
qed

lemma compress_total:
  assumes "ufd_inv u" and "is_rep (parents u) x r"
    and "length (parents u) - ranks u ! x < fuel"
  shows "\<exists>ps'. compress fuel (parents u) x r = Some ps' \<and> ufd_inv (u\<lparr>parents := ps'\<rparr>)"
  using assms
proof (induction fuel arbitrary: u x)
  case 0
  then show ?case by simp
next
  case (Suc fuel)
  show ?case
  proof (cases "x = r")
    case True
    then show ?thesis using Suc.prems(1) by simp
  next
    case False
    let ?u' = "u\<lparr>parents := (parents u)[x := r]\<rparr>"
    let ?y = "parents u ! x"
    note xd = is_rep_dom [OF Suc.prems(2)]
    have xn: "?y \<noteq> x" using False Suc.prems(2) by (auto dest: is_rep_of_root)
    have yr: "is_rep (parents u) ?y r" using Suc.prems(2) xn by (auto elim: is_rep.cases)
    have inv': "ufd_inv ?u'" using ufd_inv_redirect(1) [OF Suc.prems(1,2) False] .
    have yr': "is_rep (parents ?u') ?y r"
      using yr is_rep_update [OF Suc.prems(2)] by simp
    have y: "ranks u ! x < ranks u ! ?y" "ranks u ! ?y \<le> length (parents u)"
      using ufd_inv_parent(2) [OF Suc.prems(1) xd xn]
        ufd_inv_rank_le [OF Suc.prems(1) is_rep_dom [OF yr]] by simp_all
    have "length (parents u) - ranks u ! ?y < fuel" using Suc.prems(3) y by linarith
    then have "length (parents ?u') - ranks ?u' ! ?y < fuel" by simp
    from Suc.IH [OF inv' yr' this] show ?thesis using False xd by simp
  qed
qed

text \<open>
  The fuel suffices: in a forest that satisfies the invariant, \<open>find\<close> on an element
  returns its root, and the compressed forest satisfies the invariant again.
\<close>

lemma ufd_find_total:
  assumes inv: "ufd_inv u" and x: "x < length (parents u)"
  shows "\<exists>r u'. ufd_find u x = Some (r, u') \<and> ufd_inv u'"
proof -
  have "length (parents u) - ranks u ! x < Suc (length (parents u))" by simp
  from find_root_total [OF inv x this] obtain r where
    r: "find_root (Suc (length (parents u))) (parents u) x = Some r" by blast
  from compress_total [OF inv find_root_is_rep [OF r]] obtain ps' where
    "compress (Suc (length (parents u))) (parents u) x r = Some ps'"
    "ufd_inv (u\<lparr>parents := ps'\<rparr>)"
    by (metis diff_le_self le_imp_less_Suc)
  then show ?thesis using r by (simp add: ufd_find_def)
qed

lemma ufd_find_inv:
  assumes "ufd_find u x = Some (r, u')" and "ufd_inv u"
  shows "ufd_inv u'"
proof -
  have "x < length (parents u)" using ufd_find_is_rep(1) [OF assms(1)] by (rule is_rep_dom)
  from ufd_find_total [OF assms(2) this] assms(1) show ?thesis by auto
qed


text \<open>Hanging the root \<open>b\<close> below the root \<open>a\<close>.\<close>

lemma is_rep_link:
  assumes a: "a < length ps" "ps ! a = a" and b: "b < length ps" "ps ! b = b" and ne: "a \<noteq> b"
  shows "is_rep (ps[b := a]) z s \<longleftrightarrow> (\<exists>s0. is_rep ps z s0 \<and> s = (if s0 = b then a else s0))"
proof
  have aa: "is_rep (ps[b := a]) a a" using a ne by (auto intro: is_rep.root)
  assume "is_rep (ps[b := a]) z s"
  then show "\<exists>s0. is_rep ps z s0 \<and> s = (if s0 = b then a else s0)"
  proof (induction rule: is_rep.induct)
    case (root z)
    then have "z \<noteq> b" using b ne by auto
    then have "is_rep ps z z" using root by (auto intro: is_rep.root)
    then show ?case using \<open>z \<noteq> b\<close> by auto
  next
    case (step z s)
    then obtain s0 where s0: "is_rep ps ((ps[b := a]) ! z) s0" "s = (if s0 = b then a else s0)"
      by blast
    show ?case
    proof (cases "z = b")
      case True
      then have "is_rep ps a s0" using s0(1) b by simp
      then have "s0 = a" using a by (auto dest: is_rep_of_root)
      then have "s = a" using s0(2) ne by simp
      moreover have "is_rep ps b b" using b by (auto intro: is_rep.root)
      ultimately show ?thesis using True by auto
    next
      case False
      then have "is_rep ps z s0" using s0(1) step.hyps(1,2) by (auto intro: is_rep.step)
      then show ?thesis using s0(2) by auto
    qed
  qed
next
  have aa: "is_rep (ps[b := a]) a a" using a ne by (auto intro: is_rep.root)
  assume "\<exists>s0. is_rep ps z s0 \<and> s = (if s0 = b then a else s0)"
  then obtain s0 where s0: "is_rep ps z s0" and s: "s = (if s0 = b then a else s0)" by blast
  from s0 have "is_rep (ps[b := a]) z (if s0 = b then a else s0)"
  proof (induction rule: is_rep.induct)
    case (root z)
    show ?case
    proof (cases "z = b")
      case True
      then show ?thesis using aa b ne by (auto intro: is_rep.step)
    next
      case False
      then show ?thesis using root by (auto intro: is_rep.root)
    qed
  next
    case (step z s0)
    then have "z \<noteq> b" using b by auto
    then show ?case using step by (auto intro: is_rep.step)
  qed
  then show "is_rep (ps[b := a]) z s" using s by simp
qed

lemma ufd_roots_link:
  assumes "a < length ps" "ps ! a = a" "b < length ps" "ps ! b = b" "a \<noteq> b"
  shows "ufd_roots (ps[b := a]) = ufd_roots ps - {b}" and "b \<in> ufd_roots ps"
  using assms by (auto simp: ufd_roots_def nth_list_update split: if_splits)

lemma ufd_inv_link:
  assumes inv: "ufd_inv u"
    and a: "a < length (parents u)" "parents u ! a = a"
    and b: "b < length (parents u)" "parents u ! b = b" and ne: "a \<noteq> b"
    and rk: "ranks u ! b < ranks u ! a"
  shows "ufd_inv (u\<lparr>parents := (parents u)[b := a], numberOfSets := numberOfSets u - 1\<rparr>)"
proof -
  let ?u' = "u\<lparr>parents := (parents u)[b := a], numberOfSets := numberOfSets u - 1\<rparr>"
  note rl = ufd_roots_link [OF a b ne]
  have card: "card (ufd_roots (parents ?u')) = card (ufd_roots (parents u)) - 1"
    using rl by simp
  show ?thesis
  proof (rule ufd_invI)
    show "length (ranks ?u') = length (parents ?u')" using ufd_inv_basic(1) [OF inv] by simp
    show "numberOfSets ?u' = card (ufd_roots (parents ?u'))"
      using ufd_inv_basic(2) [OF inv] card by simp
  next
    fix y assume "y < length (parents ?u')"
    then have y: "y < length (parents u)" by simp
    show "parents ?u' ! y < length (parents ?u')"
      using a ufd_inv_parent(1) [OF inv y] y b by (simp add: nth_list_update)
    show "ranks ?u' ! y + card (ufd_roots (parents ?u')) \<le> length (parents ?u')"
      using ufd_inv_basic(3) [OF inv y] card by simp
    assume "parents ?u' ! y \<noteq> y"
    then show "ranks ?u' ! y < ranks ?u' ! (parents ?u' ! y)"
      using rk ufd_inv_parent(2) [OF inv y] y b
      by (cases "y = b") (simp_all add: nth_list_update)
  qed
qed

lemma ufd_inv_link_equal:
  assumes inv: "ufd_inv u"
    and a: "a < length (parents u)" "parents u ! a = a"
    and b: "b < length (parents u)" "parents u ! b = b" and ne: "a \<noteq> b"
    and rk: "ranks u ! b = ranks u ! a"
  shows "ufd_inv (u\<lparr>parents := (parents u)[b := a],
                    ranks := (ranks u)[a := ranks u ! a + 1],
                    numberOfSets := numberOfSets u - 1\<rparr>)"
proof -
  let ?u' = "u\<lparr>parents := (parents u)[b := a], ranks := (ranks u)[a := ranks u ! a + 1],
               numberOfSets := numberOfSets u - 1\<rparr>"
  note rl = ufd_roots_link [OF a b ne]
  have pos: "0 < card (ufd_roots (parents u))" using rl(2) by (auto simp: card_gt_0_iff)
  have card: "card (ufd_roots (parents ?u')) = card (ufd_roots (parents u)) - 1"
    using rl by simp
  have len: "length (ranks u) = length (parents u)" using ufd_inv_basic(1) [OF inv] .
  show ?thesis
  proof (rule ufd_invI)
    show "length (ranks ?u') = length (parents ?u')" using len by simp
    show "numberOfSets ?u' = card (ufd_roots (parents ?u'))"
      using ufd_inv_basic(2) [OF inv] card by simp
  next
    fix y assume "y < length (parents ?u')"
    then have y: "y < length (parents u)" by simp
    show "parents ?u' ! y < length (parents ?u')"
      using a ufd_inv_parent(1) [OF inv y] y b by (simp add: nth_list_update)
    show "ranks ?u' ! y + card (ufd_roots (parents ?u')) \<le> length (parents ?u')"
      using ufd_inv_basic(3) [OF inv y] ufd_inv_basic(3) [OF inv a(1)] card pos len a(1) y
      by (cases "y = a") (simp_all add: nth_list_update)
    assume ny: "parents ?u' ! y \<noteq> y"
    show "ranks ?u' ! y < ranks ?u' ! (parents ?u' ! y)"
    proof (cases "y = b")
      case True
      then show ?thesis using rk ne len a(1) b(1) by (simp add: nth_list_update)
    next
      case False
      then have py: "parents ?u' ! y = parents u ! y" "parents u ! y \<noteq> y"
        using ny by simp_all
      then have "y \<noteq> a" using a(2) by auto
      have "ranks u ! y < ranks u ! (parents u ! y)"
        using ufd_inv_parent(2) [OF inv y py(2)] .
      then show ?thesis using py \<open>y \<noteq> a\<close> len a(1) ufd_inv_parent(1) [OF inv y]
        by (cases "parents u ! y = a") (simp_all add: nth_list_update)
    qed
  qed
qed

text \<open>
  What \<open>merge\<close> does to the representatives: the two roots become one, every other
  root stays.
\<close>

lemma ufd_merge_reps:
  assumes "ufd_merge u x y = Some u'"
  shows "\<exists>rx ry w. is_rep (parents u) x rx \<and> is_rep (parents u) y ry \<and> (w = rx \<or> w = ry)
          \<and> length (parents u') = length (parents u)
          \<and> (\<forall>z s. is_rep (parents u') z s
                \<longleftrightarrow> (\<exists>s0. is_rep (parents u) z s0
                          \<and> s = (if s0 = rx \<or> s0 = ry then w else s0)))"
proof -
  from assms obtain rx u1 ry u2 where
    f1: "ufd_find u x = Some (rx, u1)" and f2: "ufd_find u1 y = Some (ry, u2)"
    and r: "(if rx = ry then Some u2
     else if ranks u2 ! rx < ranks u2 ! ry
     then Some (u2\<lparr>parents := (parents u2)[rx := ry], numberOfSets := numberOfSets u2 - 1\<rparr>)
     else if ranks u2 ! ry < ranks u2 ! rx
     then Some (u2\<lparr>parents := (parents u2)[ry := rx], numberOfSets := numberOfSets u2 - 1\<rparr>)
     else Some (u2\<lparr>parents := (parents u2)[ry := rx],
                    ranks := (ranks u2)[rx := ranks u2 ! rx + 1],
                    numberOfSets := numberOfSets u2 - 1\<rparr>)) = Some u'"
    by (auto simp: ufd_merge_def bind_eq_Some_conv)
  note a1 = ufd_find_is_rep [OF f1] and a2 = ufd_find_is_rep [OF f2]
  have xr: "is_rep (parents u) x rx" using a1(1) .
  have yr: "is_rep (parents u) y ry" using a2(1) a1(3) by simp
  have eq2: "is_rep (parents u2) z s \<longleftrightarrow> is_rep (parents u) z s" for z s
    using a1(3) a2(3) by simp
  have len2: "length (parents u2) = length (parents u)" using a1(2) a2(2) by simp
  have rx2: "rx < length (parents u2)" "parents u2 ! rx = rx"
    using is_rep_root [OF xr] eq2 [of rx rx] is_rep_root [of "parents u2" rx rx] xr
    by (auto intro: is_rep.root simp: len2 dest: is_rep_root)
  have ry2: "ry < length (parents u2)" "parents u2 ! ry = ry"
    using is_rep_root [OF yr] eq2 [of ry ry] is_rep_root [of "parents u2" ry ry] yr
    by (auto intro: is_rep.root simp: len2 dest: is_rep_root)
  show ?thesis
  proof (cases "rx = ry")
    case True
    then have "u' = u2" using r by simp
    then show ?thesis using xr yr True eq2 len2 by (intro exI [of _ rx] exI [of _ ry]) auto
  next
    case False
    show ?thesis
    proof (cases "ranks u2 ! rx < ranks u2 ! ry")
      case True
      then have u': "parents u' = (parents u2)[rx := ry]" using r False by auto
      have "is_rep (parents u') z s
              \<longleftrightarrow> (\<exists>s0. is_rep (parents u) z s0 \<and> s = (if s0 = rx \<or> s0 = ry then ry else s0))"
        for z s
        unfolding u' is_rep_link [OF ry2 rx2 False [symmetric]] eq2 by auto
      then show ?thesis using xr yr u' len2
        by (intro exI [of _ rx] exI [of _ ry] exI [of _ ry]) simp
    next
      case False2: False
      then have u': "parents u' = (parents u2)[ry := rx]"
        using r False by (auto split: if_splits)
      have "is_rep (parents u') z s
              \<longleftrightarrow> (\<exists>s0. is_rep (parents u) z s0 \<and> s = (if s0 = rx \<or> s0 = ry then rx else s0))"
        for z s
        unfolding u' is_rep_link [OF rx2 ry2 False] eq2 by auto
      then show ?thesis using xr yr u' len2
        by (intro exI [of _ rx] exI [of _ ry] exI [of _ rx]) simp
    qed
  qed
qed

lemma ufd_merge_total:
  assumes inv: "ufd_inv u" and x: "x < length (parents u)" and y: "y < length (parents u)"
  shows "\<exists>u'. ufd_merge u x y = Some u' \<and> ufd_inv u'"
proof -
  from ufd_find_total [OF inv x] obtain rx u1 where
    f1: "ufd_find u x = Some (rx, u1)" and i1: "ufd_inv u1" by blast
  note a1 = ufd_find_is_rep [OF f1]
  have "y < length (parents u1)" using y a1(2) by simp
  from ufd_find_total [OF i1 this] obtain ry u2 where
    f2: "ufd_find u1 y = Some (ry, u2)" and i2: "ufd_inv u2" by blast
  note a2 = ufd_find_is_rep [OF f2]
  have "is_rep (parents u2) rx rx"
    using is_rep_root [OF a1(1)] a1(3) [of rx rx] a2(3) [of rx rx] by (auto intro: is_rep.root)
  then have rx2: "rx < length (parents u2)" "parents u2 ! rx = rx"
    by (auto dest: is_rep_root)
  have "is_rep (parents u2) ry ry"
    using is_rep_root [OF a2(1)] a2(3) [of ry ry] by (auto intro: is_rep.root)
  then have ry2: "ry < length (parents u2)" "parents u2 ! ry = ry"
    by (auto dest: is_rep_root)
  show ?thesis
  proof (cases "rx = ry")
    case True
    then show ?thesis using f1 f2 i2 by (simp add: ufd_merge_def)
  next
    case False
    consider "ranks u2 ! rx < ranks u2 ! ry" | "ranks u2 ! ry < ranks u2 ! rx"
      | "ranks u2 ! ry = ranks u2 ! rx" by linarith
    then show ?thesis
    proof cases
      case 1
      from ufd_inv_link [OF i2 ry2 rx2 False [symmetric] 1] show ?thesis
        using f1 f2 False 1 by (simp add: ufd_merge_def)
    next
      case 2
      from ufd_inv_link [OF i2 rx2 ry2 False 2] show ?thesis
        using f1 f2 False 2 by (simp add: ufd_merge_def)
    next
      case 3
      from ufd_inv_link_equal [OF i2 rx2 ry2 False 3] show ?thesis
        using f1 f2 False 3 by (simp add: ufd_merge_def)
    qed
  qed
qed

lemma ufd_merge_inv:
  assumes "ufd_merge u x y = Some u'" and "ufd_inv u"
  shows "ufd_inv u'"
proof -
  from ufd_merge_reps [OF assms(1)] have "x < length (parents u)" "y < length (parents u)"
    by (auto dest: is_rep_dom)
  from ufd_merge_total [OF assms(2) this] assms(1) show ?thesis by auto
qed


section \<open>The two-axis engine: the contracted energy is the energy of the result\<close>

lemma foldM_upt_inv:
  assumes "foldM f [0..<n] s = Some s'" and "I 0 s"
    and "\<And>i t t'. i < n \<Longrightarrow> I i t \<Longrightarrow> f i t = Some t' \<Longrightarrow> I (Suc i) t'"
  shows "I n s'"
  using assms(1,3)
proof (induction n arbitrary: s')
  case 0
  then show ?case using assms(2) by simp
next
  case (Suc n)
  from Suc.prems(1) obtain t where t: "foldM f [0..<n] s = Some t" "f n t = Some s'"
    by (auto simp: foldM_append bind_eq_Some_conv)
  have "I n t" using Suc.IH [OF t(1)] Suc.prems(2) by simp
  then show ?case using Suc.prems(2) [of n t s'] t(2) by simp
qed

lemma same_reps_refl [simp]: "same_reps u u"
  by (simp add: same_reps_def)

lemma ufd_find_same_reps:
  assumes "ufd_find u x = Some (r, u')" and "same_reps u u1"
  shows "same_reps u' u1" and "is_rep (parents u1) x r"
  using ufd_find_is_rep [OF assms(1)] assms(2) by (simp_all add: same_reps_def)

lemma lifted_energy_add_cost:
  "lifted_energy (add_cost (a, b) w l) cc
     = lifted_energy l cc + (if cc ! a \<noteq> cc ! b then w else 0)"
  by (induction l) (auto simp: lifted_energy_def)

lemma lifted_energy_setCost:
  "lifted_energy (lifted (setCost obj u v w)) cc
     = lifted_energy (lifted obj) cc + (if cc ! u \<noteq> cc ! v then w else 0)"
  by (cases "u \<le> v") (auto simp: setCost_def lifted_energy_add_cost min_def max_def)

lemma evalNodeLabels_energy:
  assumes "evalNodeLabels obj cc = Some e"
  shows "e = lifted_energy (lifted obj) cc"
proof -
  have "foldM (\<lambda>((u, v), w) e. do {
       lu \<leftarrow> nth_opt cc u;
       lv \<leftarrow> nth_opt cc v;
       Some (if lu \<noteq> lv then e + w else e)
     }) l e0 = Some e \<Longrightarrow> e = e0 + lifted_energy l cc" for l e0
  proof (induction l arbitrary: e0)
    case Nil
    then show ?case by (simp add: lifted_energy_def)
  next
    case (Cons a l)
    obtain u v w where a: "a = ((u, v), w)" by (cases a) auto
    from Cons.prems obtain e1 where
      e1: "e1 = (if cc ! u \<noteq> cc ! v then e0 + w else e0)"
      and r: "foldM (\<lambda>((u, v), w) e. do {
       lu \<leftarrow> nth_opt cc u;
       lv \<leftarrow> nth_opt cc v;
       Some (if lu \<noteq> lv then e + w else e)
     }) l e1 = Some e"
      unfolding a by (auto simp: bind_eq_Some_conv nth_opt_def split: if_splits)
    from Cons.IH [OF r] e1 show ?case
      by (auto simp: a lifted_energy_def)
  qed
  from this [of "lifted obj" 0] assms show ?thesis by (simp add: evalNodeLabels_def)
qed

lemma dense_relabel_char:
  assumes "dense_relabel obj td u1 d0 = Some (u2, d)"
  shows "length d = length d0" and "same_reps u2 u1"
    and "\<forall>var<n_variables obj. \<exists>r. is_rep (parents u1) var r \<and> d ! var = to_dense_at td r"
proof -
  let ?I = "\<lambda>i (s :: ufd \<times> nat list). length (snd s) = length d0 \<and> same_reps (fst s) u1
              \<and> (\<forall>var<i. \<exists>r. is_rep (parents u1) var r \<and> snd s ! var = to_dense_at td r)"
  have "?I (n_variables obj) (u2, d)"
  proof (rule foldM_upt_inv [OF assms [unfolded dense_relabel_def], where I = ?I])
    show "?I 0 (u1, d0)" by simp
  next
    fix i t t'
    assume i: "i < n_variables obj" and I: "?I i t"
      and s: "(case t of (u, d) \<Rightarrow> do {
                (r, u) \<leftarrow> ufd_find u i;
                d \<leftarrow> upd_opt d i (to_dense_at td r);
                Some (u, d)
              }) = Some t'"
    obtain u d where t: "t = (u, d)" by (cases t)
    from s obtain r u' where f: "ufd_find u i = Some (r, u')"
      and il: "i < length d" and t': "t' = (u', d[i := to_dense_at td r])"
      unfolding t by (auto simp: bind_eq_Some_conv upd_opt_def split: if_splits)
    note fr = ufd_find_same_reps [OF f, of u1]
    show "?I (Suc i) t'"
      using I fr il unfolding t t' by (auto simp: less_Suc_eq nth_list_update)
  qed
  then show "length d = length d0" and "same_reps u2 u1"
    and "\<forall>var<n_variables obj. \<exists>r. is_rep (parents u1) var r \<and> d ! var = to_dense_at td r"
    by simp_all
qed

lemma materialize_char:
  assumes "materialize obj cc res = Some r"
  shows "xshape r = xshape res" and "length (xdata r) = length (xdata res)"
    and "\<forall>var<n_variables obj. xdata r ! var = cc ! (xdata res ! var)"
proof -
  from assms obtain d where
    f: "foldM (\<lambda>var d. do {
            dense_var \<leftarrow> nth_opt d var;
            l \<leftarrow> nth_opt cc dense_var;
            upd_opt d var l
          }) [0..<n_variables obj] (xdata res) = Some d"
    and r: "r = res\<lparr>xdata := d\<rparr>"
    by (auto simp: materialize_def bind_eq_Some_conv)
  let ?I = "\<lambda>i (d :: nat list). length d = length (xdata res)
              \<and> (\<forall>var<i. d ! var = cc ! (xdata res ! var))
              \<and> (\<forall>var\<ge>i. d ! var = xdata res ! var)"
  have "?I (n_variables obj) d"
  proof (rule foldM_upt_inv [OF f, where I = ?I])
    show "?I 0 (xdata res)" by simp
  next
    fix i t t'
    assume i: "i < n_variables obj" and I: "?I i t"
      and s: "do {
            dense_var \<leftarrow> nth_opt t i;
            l \<leftarrow> nth_opt cc dense_var;
            upd_opt t i l
          } = Some t'"
    from s have il: "i < length t" and t': "t' = t[i := cc ! (t ! i)]"
      by (auto simp: bind_eq_Some_conv upd_opt_def nth_opt_def split: if_splits)
    show "?I (Suc i) t'"
      using I il unfolding t' by (auto simp: less_Suc_eq nth_list_update)
  qed
  then show "xshape r = xshape res" and "length (xdata r) = length (xdata res)"
    and "\<forall>var<n_variables obj. xdata r ! var = cc ! (xdata res ! var)"
    using r by simp_all
qed


lemma fusion2_insert_edges_reps:
  assumes "fusion2_insert_edges obj td u g0 = Some (node_p, u', g)" and "same_reps u u1"
  shows "same_reps u' u1"
proof -
  let ?P = "\<lambda>s :: nat \<times> ufd \<times> cc_graph. same_reps (fst (snd s)) u1"
  have "?P (node_p, u', g)"
  proof (rule foldM_invariant [OF assms(1) [unfolded fusion2_insert_edges_def], where P = ?P])
    show "?P (0, u, g0)" using assms(2) by simp
  next
    fix p0 t t'
    assume P: "?P t" and f: "foldM (\<lambda>p1 (node_p, u, cc_graph). do {
       (p_label, u) \<leftarrow> ufd_find u node_p;
       (u, cc_graph) \<leftarrow> (if p0 + 1 < shape obj ! 0 then do {
           let node_q = node_p + shape obj ! 1;
           (q_label, u) \<leftarrow> ufd_find u node_q;
           Some (u, if p_label \<noteq> q_label
                    then insertEdge cc_graph (to_dense_at td p_label)
                                             (to_dense_at td q_label)
                    else cc_graph)
         } else Some (u, cc_graph));
       (u, cc_graph) \<leftarrow> (if p1 + 1 < shape obj ! 1 then do {
           let node_q = node_p + 1;
           (q_label, u) \<leftarrow> ufd_find u node_q;
           Some (u, if p_label \<noteq> q_label
                    then insertEdge cc_graph (to_dense_at td p_label)
                                             (to_dense_at td q_label)
                    else cc_graph)
         } else Some (u, cc_graph));
       Some (node_p + 1, u, cc_graph)
     }) [0..<shape obj ! 1] t = Some t'"
    show "?P t'"
    proof (rule foldM_invariant [OF f, where P = ?P])
      show "?P t" by (rule P)
    next
      fix p1 s s'
      assume "?P s" and "(case s of (node_p, u, cc_graph) \<Rightarrow> do {
       (p_label, u) \<leftarrow> ufd_find u node_p;
       (u, cc_graph) \<leftarrow> (if p0 + 1 < shape obj ! 0 then do {
           let node_q = node_p + shape obj ! 1;
           (q_label, u) \<leftarrow> ufd_find u node_q;
           Some (u, if p_label \<noteq> q_label
                    then insertEdge cc_graph (to_dense_at td p_label)
                                             (to_dense_at td q_label)
                    else cc_graph)
         } else Some (u, cc_graph));
       (u, cc_graph) \<leftarrow> (if p1 + 1 < shape obj ! 1 then do {
           let node_q = node_p + 1;
           (q_label, u) \<leftarrow> ufd_find u node_q;
           Some (u, if p_label \<noteq> q_label
                    then insertEdge cc_graph (to_dense_at td p_label)
                                             (to_dense_at td q_label)
                    else cc_graph)
         } else Some (u, cc_graph));
       Some (node_p + 1, u, cc_graph)
     }) = Some s'"
      then show "?P s'"
        by (cases s)
           (auto simp: bind_eq_Some_conv Let_def split: if_splits;
            blast intro: ufd_find_same_reps(1))
    qed
  qed
  then show ?thesis by simp
qed


lemma lifted_sum_add_cost:
  "lifted_sum T (add_cost (a, b) w l) = lifted_sum T l + (if T a b then w else 0)"
  by (induction l) (auto simp: lifted_sum_def)

lemma lifted_sum_setCost:
  assumes "\<And>a b. T a b = T b a"
  shows "lifted_sum T (lifted (setCost obj u v w))
           = lifted_sum T (lifted obj) + (if T u v then w else 0)"
proof (cases "u \<le> v")
  case True
  then show ?thesis by (simp add: setCost_def lifted_sum_add_cost min_def max_def)
next
  case False
  then show ?thesis using assms [of u v]
    by (simp add: setCost_def lifted_sum_add_cost min_def max_def)
qed

lemma lifted_energy_sum:
  "lifted_energy l cc = lifted_sum (\<lambda>u v. cc ! u \<noteq> cc ! v) l"
  by (simp add: lifted_energy_def lifted_sum_def)

lemma fusion2_fill_lifted_sum:
  fixes comp :: "nat \<Rightarrow> nat" and T :: "nat \<Rightarrow> nat \<Rightarrow> bool"
  assumes run: "fusion2_fill_lifted obj td u cc_obj0 = Some (node_p, u', cc_obj)"
    and sr: "same_reps u u1"
    and comp: "\<And>x r. is_rep (parents u1) x r \<Longrightarrow> comp x = to_dense_at td r"
    and irr: "\<And>a. \<not> T a a" and sym: "\<And>a b. T a b = T b a"
  shows "same_reps u' u1"
    and "lifted_sum T (lifted cc_obj) = lifted_sum T (lifted cc_obj0)
          + (\<Sum>p0<shape obj ! 0. \<Sum>p1<shape obj ! 1. \<Sum>k<n_offsets obj.
               let q0 = int p0 + the (xat2 (offsets obj) k 0);
                   q1 = int p1 + the (xat2 (offsets obj) k 1)
               in if 0 \<le> q0 \<and> q0 < int (shape obj ! 0) \<and> 0 \<le> q1 \<and> q1 < int (shape obj ! 1)
                     \<and> T (comp (p0 * shape obj ! 1 + p1))
                           (comp (nat (q0 * int (shape obj ! 1) + q1)))
                  then the (xat3 (weights obj) p0 p1 k) else 0)"
proof -
  define s0 s1 K where "s0 = shape obj ! 0" and "s1 = shape obj ! 1" and "K = n_offsets obj"
  define tm where "tm p0 p1 k =
              (let q0 = int p0 + the (xat2 (offsets obj) k 0);
                   q1 = int p1 + the (xat2 (offsets obj) k 1)
               in if 0 \<le> q0 \<and> q0 < int s0 \<and> 0 \<le> q1 \<and> q1 < int s1
                     \<and> T (comp (p0 * s1 + p1)) (comp (nat (q0 * int s1 + q1)))
                  then the (xat3 (weights obj) p0 p1 k) else 0)" for p0 p1 k
  define LE where "LE c = lifted_sum T (lifted c)" for c :: cc_objective
  define kbody where "kbody p0 p1 p_label = (\<lambda>offset_index (u, cc_obj). do {
           o0 \<leftarrow> xat2 (offsets obj) offset_index 0;
           o1 \<leftarrow> xat2 (offsets obj) offset_index 1;
           let q0 = int p0 + o0;
           let q1 = int p1 + o1;
           if q0 \<ge> 0 \<and> q0 < int s0 \<and> q1 \<ge> 0 \<and> q1 < int s1
           then do {
             let node_q = nat (q0 * int s1 + q1);
             (q_label, u) \<leftarrow> ufd_find u node_q;
             if p_label \<noteq> q_label
             then do {
               w \<leftarrow> xat3 (weights obj) p0 p1 offset_index;
               Some (u, setCost cc_obj (to_dense_at td p_label)
                                       (to_dense_at td q_label) w)
             }
             else Some (u, cc_obj)
           }
           else Some (u, cc_obj)
         })" for p0 p1 :: nat and p_label :: nat
  define pbody where "pbody p0 = (\<lambda>p1 (node_p, u, cc_obj). do {
       (p_label, u) \<leftarrow> ufd_find u node_p;
       (u, cc_obj) \<leftarrow> foldM (kbody p0 p1 p_label) [0..<K] (u, cc_obj);
       Some (node_p + 1, u, cc_obj)
     })" for p0 :: nat
  have kstep: "same_reps v' u1 \<and> LE c' = LE c + tm p0 p1 k"
    if "kbody p0 p1 p_label k (v, c) = Some (v', c')" "same_reps v u1"
      "comp (p0 * s1 + p1) = to_dense_at td p_label" for p0 p1 p_label k v c v' c'
  proof -
    from that(1) obtain o0 o1 where
      o: "xat2 (offsets obj) k 0 = Some o0" "xat2 (offsets obj) k 1 = Some o1"
      by (auto simp: kbody_def bind_eq_Some_conv)
    show ?thesis
    proof (cases "0 \<le> int p0 + o0 \<and> int p0 + o0 < int s0 \<and> 0 \<le> int p1 + o1 \<and> int p1 + o1 < int s1")
      case False
      then have "v' = v" "c' = c" "tm p0 p1 k = 0"
        using that(1) o by (auto simp: kbody_def tm_def Let_def)
      then show ?thesis using that(2) by simp
    next
      case True
      let ?nq = "nat ((int p0 + o0) * int s1 + (int p1 + o1))"
      from that(1) True o obtain q_label where
        f: "ufd_find v ?nq = Some (q_label, v')"
        and r: "(if p_label \<noteq> q_label
                 then Option.bind (xat3 (weights obj) p0 p1 k)
                        (\<lambda>w. Some (v', setCost c (to_dense_at td p_label)
                                                  (to_dense_at td q_label) w))
                 else Some (v', c)) = Some (v', c')"
        by (auto simp: kbody_def bind_eq_Some_conv Let_def split: if_splits)
      note fr = ufd_find_same_reps [OF f that(2)]
      have cq: "comp ?nq = to_dense_at td q_label" using comp [OF fr(2)] .
      show ?thesis
      proof (cases "p_label = q_label")
        case eq: True
        then have "c' = c" using r by simp
        moreover have "tm p0 p1 k = 0"
          using eq cq that(3) o irr by (simp add: tm_def Let_def)
        ultimately show ?thesis using fr(1) by simp
      next
        case ne: False
        then obtain w where w: "xat3 (weights obj) p0 p1 k = Some w"
          and c': "c' = setCost c (to_dense_at td p_label) (to_dense_at td q_label) w"
          using r by (auto simp: bind_eq_Some_conv)
        have "tm p0 p1 k = (if T (to_dense_at td p_label) (to_dense_at td q_label)
                             then w else 0)"
          using True cq that(3) o w by (simp add: tm_def Let_def)
        then show ?thesis using fr(1) c' by (simp add: LE_def lifted_sum_setCost [OF sym])
      qed
    qed
  qed
  have kloop: "same_reps (fst t') u1 \<and> LE (snd t') = LE (snd t) + (\<Sum>k<K. tm p0 p1 k)"
    if "foldM (kbody p0 p1 p_label) [0..<K] t = Some t'" "same_reps (fst t) u1"
      "comp (p0 * s1 + p1) = to_dense_at td p_label" for p0 p1 p_label t t'
  proof -
    let ?I = "\<lambda>i (x :: ufd \<times> cc_objective).
                same_reps (fst x) u1 \<and> LE (snd x) = LE (snd t) + (\<Sum>k<i. tm p0 p1 k)"
    have "?I K t'"
    proof (rule foldM_upt_inv [OF that(1), where I = ?I])
      show "?I 0 t" using that(2) by simp
    next
      fix i x x' assume "i < K" and I: "?I i x" and b: "kbody p0 p1 p_label i x = Some x'"
      from kstep [of p0 p1 p_label i "fst x" "snd x" "fst x'" "snd x'"] b I that(3)
      show "?I (Suc i) x'" by simp
    qed
    then show ?thesis .
  qed
  have pstep: "fst t' = Suc (fst t) \<and> same_reps (fst (snd t')) u1
               \<and> LE (snd (snd t')) = LE (snd (snd t)) + (\<Sum>k<K. tm p0 p1 k)"
    if "pbody p0 p1 t = Some t'" "fst t = p0 * s1 + p1" "same_reps (fst (snd t)) u1"
    for p0 p1 t t'
  proof -
    obtain n v c where t: "t = (n, v, c)" by (cases t)
    from that(1) obtain p_label v1 x where
      f: "ufd_find v n = Some (p_label, v1)"
      and k: "foldM (kbody p0 p1 p_label) [0..<K] (v1, c) = Some x"
      and t': "t' = (n + 1, fst x, snd x)"
      unfolding t pbody_def by (auto simp: bind_eq_Some_conv)
    have sv: "same_reps v u1" using that(3) t by simp
    note fr = ufd_find_same_reps [OF f sv]
    have "comp (p0 * s1 + p1) = to_dense_at td p_label"
      using comp [OF fr(2)] that(2) t by simp
    from kloop [OF k _ this] fr(1) show ?thesis by (simp add: t t')
  qed
  have ploop: "fst t' = Suc p0 * s1 \<and> same_reps (fst (snd t')) u1
               \<and> LE (snd (snd t')) = LE (snd (snd t)) + (\<Sum>p1<s1. \<Sum>k<K. tm p0 p1 k)"
    if "foldM (pbody p0) [0..<s1] t = Some t'" "fst t = p0 * s1" "same_reps (fst (snd t)) u1"
    for p0 t t'
  proof -
    let ?I = "\<lambda>i (x :: nat \<times> ufd \<times> cc_objective).
                fst x = p0 * s1 + i \<and> same_reps (fst (snd x)) u1
                \<and> LE (snd (snd x)) = LE (snd (snd t)) + (\<Sum>p1<i. \<Sum>k<K. tm p0 p1 k)"
    have "?I s1 t'"
    proof (rule foldM_upt_inv [OF that(1), where I = ?I])
      show "?I 0 t" using that(2,3) by simp
    next
      fix i x x' assume "i < s1" and I: "?I i x" and b: "pbody p0 i x = Some x'"
      from pstep [OF b] I show "?I (Suc i) x'" by simp
    qed
    then show ?thesis by simp
  qed
  have run': "foldM (\<lambda>p0. foldM (pbody p0) [0..<s1]) [0..<s0] (0, u, cc_obj0)
               = Some (node_p, u', cc_obj)"
    using run unfolding fusion2_fill_lifted_def pbody_def kbody_def s0_def s1_def K_def .
  let ?J = "\<lambda>i (x :: nat \<times> ufd \<times> cc_objective).
                fst x = i * s1 \<and> same_reps (fst (snd x)) u1
                \<and> LE (snd (snd x)) = LE cc_obj0 + (\<Sum>p0<i. \<Sum>p1<s1. \<Sum>k<K. tm p0 p1 k)"
  have J: "?J s0 (node_p, u', cc_obj)"
  proof (rule foldM_upt_inv [OF run', where I = ?J])
    show "?J 0 (0, u, cc_obj0)" using sr by simp
  next
    fix i x x' assume "i < s0" and I: "?J i x" and b: "foldM (pbody i) [0..<s1] x = Some x'"
    from ploop [OF b] I show "?J (Suc i) x'" by simp
  qed
  show "same_reps u' u1" using J by simp
  show "lifted_sum T (lifted cc_obj) = lifted_sum T (lifted cc_obj0)
          + (\<Sum>p0<shape obj ! 0. \<Sum>p1<shape obj ! 1. \<Sum>k<n_offsets obj.
               let q0 = int p0 + the (xat2 (offsets obj) k 0);
                   q1 = int p1 + the (xat2 (offsets obj) k 1)
               in if 0 \<le> q0 \<and> q0 < int (shape obj ! 0) \<and> 0 \<le> q1 \<and> q1 < int (shape obj ! 1)
                     \<and> T (comp (p0 * shape obj ! 1 + p1))
                           (comp (nat (q0 * int (shape obj ! 1) + q1)))
                  then the (xat3 (weights obj) p0 p1 k) else 0)"
    using J unfolding LE_def tm_def s0_def s1_def K_def by simp
qed

lemma fusion2_fill_lifted_energy:
  fixes comp :: "nat \<Rightarrow> nat" and cc :: "nat list"
  assumes run: "fusion2_fill_lifted obj td u cc_obj0 = Some (node_p, u', cc_obj)"
    and sr: "same_reps u u1"
    and comp: "\<And>x r. is_rep (parents u1) x r \<Longrightarrow> comp x = to_dense_at td r"
  shows "same_reps u' u1"
    and "lifted_energy (lifted cc_obj) cc = lifted_energy (lifted cc_obj0) cc
          + (\<Sum>p0<shape obj ! 0. \<Sum>p1<shape obj ! 1. \<Sum>k<n_offsets obj.
               let q0 = int p0 + the (xat2 (offsets obj) k 0);
                   q1 = int p1 + the (xat2 (offsets obj) k 1)
               in if 0 \<le> q0 \<and> q0 < int (shape obj ! 0) \<and> 0 \<le> q1 \<and> q1 < int (shape obj ! 1)
                     \<and> cc ! comp (p0 * shape obj ! 1 + p1)
                         \<noteq> cc ! comp (nat (q0 * int (shape obj ! 1) + q1))
                  then the (xat3 (weights obj) p0 p1 k) else 0)"
proof -
  let ?T = "\<lambda>u v. cc ! u \<noteq> cc ! v"
  have irr: "\<not> ?T a a" for a by simp
  have sym: "?T a b = ?T b a" for a b by auto
  note fs = fusion2_fill_lifted_sum [where T = ?T and comp = comp and ?u1.0 = u1,
              OF run sr comp irr sym]
  show "same_reps u' u1" by (rule fs(1))
  show "lifted_energy (lifted cc_obj) cc = lifted_energy (lifted cc_obj0) cc
          + (\<Sum>p0<shape obj ! 0. \<Sum>p1<shape obj ! 1. \<Sum>k<n_offsets obj.
               let q0 = int p0 + the (xat2 (offsets obj) k 0);
                   q1 = int p1 + the (xat2 (offsets obj) k 1)
               in if 0 \<le> q0 \<and> q0 < int (shape obj ! 0) \<and> 0 \<le> q1 \<and> q1 < int (shape obj ! 1)
                     \<and> cc ! comp (p0 * shape obj ! 1 + p1)
                         \<noteq> cc ! comp (nat (q0 * int (shape obj ! 1) + q1))
                  then the (xat3 (weights obj) p0 p1 k) else 0)"
    unfolding lifted_energy_sum by (rule fs(2))
qed

lemma fusion2_fill_lifted_weights:
  fixes comp :: "nat \<Rightarrow> nat"
  assumes run: "fusion2_fill_lifted obj td u (LiftedMulticutObjective g) = Some (node_p, u', cc_obj)"
    and comp: "\<And>x r. is_rep (parents u) x r \<Longrightarrow> comp x = to_dense_at td r"
    and ab: "a \<noteq> b"
  shows "contracted_weight cc_obj a b
          = (\<Sum>p0<shape obj ! 0. \<Sum>p1<shape obj ! 1. \<Sum>k<n_offsets obj.
               let q0 = int p0 + the (xat2 (offsets obj) k 0);
                   q1 = int p1 + the (xat2 (offsets obj) k 1)
               in if 0 \<le> q0 \<and> q0 < int (shape obj ! 0) \<and> 0 \<le> q1 \<and> q1 < int (shape obj ! 1)
                     \<and> (comp (p0 * shape obj ! 1 + p1) = a
                          \<and> comp (nat (q0 * int (shape obj ! 1) + q1)) = b
                        \<or> comp (p0 * shape obj ! 1 + p1) = b
                          \<and> comp (nat (q0 * int (shape obj ! 1) + q1)) = a)
                  then the (xat3 (weights obj) p0 p1 k) else 0)"
proof -
  let ?T = "\<lambda>u v. (u = a \<and> v = b) \<or> (u = b \<and> v = a)"
  have z: "lifted_sum ?T (lifted (LiftedMulticutObjective g)) = 0"
    by (simp add: LiftedMulticutObjective_def lifted_sum_def)
  have irr: "\<not> ?T c c" for c using ab by auto
  have sym: "?T c d = ?T d c" for c d by auto
  note fe = fusion2_fill_lifted_sum(2) [where T = ?T and comp = comp,
              OF run same_reps_refl comp irr sym]
  show ?thesis unfolding contracted_weight_def
    by (rule trans [OF fe], assumption, subst z, rule add_0)
qed


lemma nat_flat2: "0 \<le> q0 \<Longrightarrow> 0 \<le> q1 \<Longrightarrow> nat (q0 * int s1 + q1) = nat q0 * s1 + nat q1"
  by (simp add: nat_add_distrib nat_mult_distrib)

lemma fusion2_build_energy:
  assumes b: "fusion2_build obj sf u1 res0 = Some (u, res, cc_obj, cc, e)"
    and wo: "wf_objective 2 obj"
    and r0: "xshape res0 = shape obj" "length (xdata res0) = prod_list (shape obj)"
    and mat: "materialize obj cc res = Some r"
  shows "wf_labels obj r" and "evaluate2 obj r = Some e"
proof -
  obtain s0 s1 where sh: "shape obj = [s0, s1]"
    using wo by (auto simp: wf_objective_def length_Suc_conv numeral_2_eq_2)
  have N: "n_variables obj = s0 * s1" using wo sh by (simp add: wf_objective_def)
  let ?td = "representativeLabeling u1"
  from b obtain u2 d n3 u3 g n4 u4 where
    dr: "dense_relabel obj ?td u1 (xdata res0) = Some (u2, d)"
    and res: "res = res0\<lparr>xdata := d\<rparr>"
    and ie: "fusion2_insert_edges obj ?td u2 (UndirectedGraph (numberOfSets u1)) = Some (n3, u3, g)"
    and fl: "fusion2_fill_lifted obj ?td u3 (LiftedMulticutObjective g) = Some (n4, u4, cc_obj)"
    and rs: "run_solver sf cc_obj = Some (cc, e)"
    by (auto simp: fusion2_build_def bind_eq_Some_conv Let_def)
  note dc = dense_relabel_char [OF dr]
  define comp where "comp x = to_dense_at ?td (THE r. is_rep (parents u1) x r)" for x
  have comp: "comp x = to_dense_at ?td r" if "is_rep (parents u1) x r" for x r
  proof -
    have "(THE r. is_rep (parents u1) x r) = r"
      using that by (auto intro: the_equality dest: is_rep_det)
    then show ?thesis by (simp add: comp_def)
  qed
  have dcomp: "d ! var = comp var" if "var < s0 * s1" for var
    using dc(3) that N comp by auto
  have s3: "same_reps u3 u1" using fusion2_insert_edges_reps [OF ie dc(2)] .
  note fe = fusion2_fill_lifted_energy(2) [where comp = comp and cc = cc, OF fl s3 comp]
  have e: "e = lifted_energy (lifted cc_obj) cc"
    using evalNodeLabels_energy [OF run_solver_energy [OF rs]] .
  note mc = materialize_char [OF mat]
  have rsh: "xshape r = [s0, s1]" and rlen: "length (xdata r) = s0 * s1"
    using mc(1,2) res r0 dc(1) sh by simp_all
  show wr: "wf_labels obj r" using rsh rlen sh by (simp add: wf_labels_def wf_tensor_def)
  have rw: "wf_tensor r" using wr by (simp add: wf_labels_def)
  have rat: "the (xat2 r p0 p1) = cc ! comp (p0 * s1 + p1)" if "p0 < s0" "p1 < s1" for p0 p1
  proof -
    have l: "p0 * s1 + p1 < s0 * s1" using idx2_less [OF that] .
    have "xat2 r p0 p1 = Some (xdata r ! (p0 * s1 + p1))" using xat2_wf [OF rw rsh that] .
    moreover have "xdata r ! (p0 * s1 + p1) = cc ! (d ! (p0 * s1 + p1))"
      using mc(3) l N res by simp
    ultimately show ?thesis using dcomp [OF l] by simp
  qed
  have tme: "(let q0 = int p0 + the (xat2 (offsets obj) k 0);
            q1 = int p1 + the (xat2 (offsets obj) k 1)
        in if 0 \<le> q0 \<and> q0 < int (shape obj ! 0) \<and> 0 \<le> q1 \<and> q1 < int (shape obj ! 1)
              \<and> the (xat2 r p0 p1) \<noteq> the (xat2 r (nat q0) (nat q1))
           then the (xat3 (weights obj) p0 p1 k) else 0)
       = (let q0 = int p0 + the (xat2 (offsets obj) k 0);
                   q1 = int p1 + the (xat2 (offsets obj) k 1)
               in if 0 \<le> q0 \<and> q0 < int (shape obj ! 0) \<and> 0 \<le> q1 \<and> q1 < int (shape obj ! 1)
                     \<and> cc ! comp (p0 * shape obj ! 1 + p1)
                         \<noteq> cc ! comp (nat (q0 * int (shape obj ! 1) + q1))
                  then the (xat3 (weights obj) p0 p1 k) else 0)"
    if "p0 < shape obj ! 0" "p1 < shape obj ! 1" for p0 p1 k
  proof -
    have p: "p0 < s0" "p1 < s1" using that sh by simp_all
    have "the (xat2 r (nat q0) (nat q1)) = cc ! comp (nat (q0 * int s1 + q1))"
      if "0 \<le> q0" "q0 < int s0" "0 \<le> q1" "q1 < int s1" for q0 q1
    proof -
      have "nat q0 < s0" "nat q1 < s1" using that by auto
      from rat [OF this] nat_flat2 [OF that(1,3)] show ?thesis by simp
    qed
    then show ?thesis using rat [OF p] by (auto simp: Let_def sh)
  qed
  have z: "lifted_energy (lifted (LiftedMulticutObjective g)) cc = 0"
    by (simp add: LiftedMulticutObjective_def lifted_energy_def)
  have "energy2_spec obj r
        = (\<Sum>p0<shape obj ! 0. \<Sum>p1<shape obj ! 1. \<Sum>k<n_offsets obj.
               let q0 = int p0 + the (xat2 (offsets obj) k 0);
                   q1 = int p1 + the (xat2 (offsets obj) k 1)
               in if 0 \<le> q0 \<and> q0 < int (shape obj ! 0) \<and> 0 \<le> q1 \<and> q1 < int (shape obj ! 1)
                     \<and> cc ! comp (p0 * shape obj ! 1 + p1)
                         \<noteq> cc ! comp (nat (q0 * int (shape obj ! 1) + q1))
                  then the (xat3 (weights obj) p0 p1 k) else 0)"
    unfolding energy2_spec_def
    by (intro sum.cong refl tme) simp_all
  also have "\<dots> = lifted_energy (lifted cc_obj) cc"
    using fe z by simp
  finally have "energy2_spec obj r = lifted_energy (lifted cc_obj) cc" .
  then show "evaluate2 obj r = Some e"
    using evaluate2_energy [OF wo wr] e by simp
qed


lemma fusion2_fuse_no_regression:
  assumes wo: "wf_objective 2 (self_objective self)"
    and wa: "wf_labels (self_objective self) A" and wb: "wf_labels (self_objective self) B"
    and run: "fusion2_fuse self A B = Some (r, self')"
  shows "\<exists>e_r e_a e_b. evaluate2 (self_objective self) r = Some e_r
          \<and> evaluate2 (self_objective self) A = Some e_a
          \<and> evaluate2 (self_objective self) B = Some e_b
          \<and> e_r \<le> min e_a e_b"
proof -
  let ?obj = "self_objective self"
  from fusion2_fuse_char [OF assms] obtain u0 u res cc_obj cc e e_a e_b where
    b: "fusion2_build ?obj (self_solver_fatory self) u0 (alloc_res (shape ?obj))
          = Some (u, res, cc_obj, cc, e)"
    and ea: "evaluate2 ?obj A = Some e_a" and eb: "evaluate2 ?obj B = Some e_b"
    and sel: "if e < min e_a e_b then materialize ?obj cc res = Some r
              else r = (if e_a < e_b then A else B)"
    by blast
  show ?thesis
  proof (cases "e < min e_a e_b")
    case True
    then have "materialize ?obj cc res = Some r" using sel by simp
    from fusion2_build_energy(2) [OF b wo _ _ this] have "evaluate2 ?obj r = Some e" by simp
    then show ?thesis using ea eb True by auto
  next
    case False
    then have "r = (if e_a < e_b then A else B)" using sel by simp
    then show ?thesis using ea eb by (auto simp: min_def)
  qed
qed

section \<open>Fusing a labeling with itself\<close>





section \<open>The two-axis engine: which neighbours the stacked merge joins\<close>

text \<open>
  \<open>merge_ufd2\<close> of the two-axis engine, started on a reset forest, joins two grid
  neighbours exactly when all the stacked candidates give them equal labels.  The
  proof carries two invariants through the two loops: every pair the forest holds
  together agrees in all candidates (only agreeing neighbours are merged, and
  agreement is an equivalence), and every neighbour pair already visited that agrees
  is held together (a merge only ever joins sets).  This is the behaviour the
  three-axis text departs from in \<open>fusion3_merge_ufd2\<close>.
\<close>

lemma in_same_set_sym: "in_same_set ps a b \<Longrightarrow> in_same_set ps b a"
  by (auto simp: in_same_set_def)

lemma ufd_find_same_set:
  assumes "ufd_find u x = Some (r, u')"
  shows "in_same_set (parents u') a b = in_same_set (parents u) a b"
  using ufd_find_is_rep(3) [OF assms] by (simp add: in_same_set_def)

lemma ufd_merge_same_set:
  assumes "ufd_merge u x y = Some u'"
  shows "in_same_set (parents u') x y"
    and "in_same_set (parents u) a b \<Longrightarrow> in_same_set (parents u') a b"
    and "in_same_set (parents u') a b \<Longrightarrow>
           in_same_set (parents u) a b
           \<or> (in_same_set (parents u) a x \<and> in_same_set (parents u) y b)
           \<or> (in_same_set (parents u) a y \<and> in_same_set (parents u) x b)"
proof -
  from ufd_merge_reps [OF assms] obtain rx ry w where
    x: "is_rep (parents u) x rx" and y: "is_rep (parents u) y ry"
    and w: "w = rx \<or> w = ry"
    and eq: "\<And>z s. is_rep (parents u') z s
                \<longleftrightarrow> (\<exists>s0. is_rep (parents u) z s0
                          \<and> s = (if s0 = rx \<or> s0 = ry then w else s0))"
    by blast
  show "in_same_set (parents u') x y"
    unfolding in_same_set_def eq using x y by (intro exI [of _ w]) auto
  show "in_same_set (parents u') a b" if "in_same_set (parents u) a b"
  proof -
    from that obtain r where "is_rep (parents u) a r" "is_rep (parents u) b r"
      by (auto simp: in_same_set_def)
    then show ?thesis unfolding in_same_set_def eq
      by (intro exI [of _ "if r = rx \<or> r = ry then w else r"]) auto
  qed
  show "in_same_set (parents u) a b
           \<or> (in_same_set (parents u) a x \<and> in_same_set (parents u) y b)
           \<or> (in_same_set (parents u) a y \<and> in_same_set (parents u) x b)"
    if "in_same_set (parents u') a b"
  proof -
    from that obtain sa sb where
      sa: "is_rep (parents u) a sa" and sb: "is_rep (parents u) b sb"
      and e: "(if sa = rx \<or> sa = ry then w else sa) = (if sb = rx \<or> sb = ry then w else sb)"
      unfolding in_same_set_def eq by auto
    show ?thesis
    proof (cases "sa = sb")
      case True
      then show ?thesis using sa sb by (auto simp: in_same_set_def)
    next
      case False
      have "(sa = rx \<or> sa = ry) \<and> (sb = rx \<or> sb = ry)"
        using e False w by (auto split: if_splits)
      then have "(sa = rx \<and> sb = ry) \<or> (sa = ry \<and> sb = rx)" using False by auto
      then show ?thesis using sa sb x y by (auto simp: in_same_set_def)
    qed
  qed
qed

lemma in_same_set_reset:
  assumes "in_same_set (parents (ufd_reset u)) a b"
  shows "a = b"
proof -
  have "r = x" if "is_rep [0..<n] x r" for n x r
    using that by (induction rule: is_rep.induct) auto
  then have "r = x" if "is_rep (parents (ufd_reset u)) x r" for x r
    using that by (simp add: ufd_reset_def ufd_construct_def)
  then show ?thesis using assms unfolding in_same_set_def by blast
qed

lemma do_merge_loop_char:
  assumes "\<forall>c\<in>set cs. rd c = Some (f c, g c)"
  shows "do_merge_loop rd cs = Some (\<forall>c\<in>set cs. f c = g c)"
  using assms by (induction cs) auto


lemma fusion2_merge_ufd2_char:
  assumes wo: "wf_objective 2 obj" and ws: "wf_stack obj S"
    and run: "fusion2_merge_ufd2 obj (ufd_reset u) S = Some u'"
  shows "\<forall>p0<shape obj ! 0. \<forall>p1<shape obj ! 1.
      (p0 + 1 < shape obj ! 0 \<longrightarrow>
         in_same_set (parents u') (p0 * shape obj ! 1 + p1) ((p0 + 1) * shape obj ! 1 + p1)
           = (\<forall>c<last (xshape S). xat3 S p0 p1 c = xat3 S (p0 + 1) p1 c))
    \<and> (p1 + 1 < shape obj ! 1 \<longrightarrow>
         in_same_set (parents u') (p0 * shape obj ! 1 + p1) (p0 * shape obj ! 1 + (p1 + 1))
           = (\<forall>c<last (xshape S). xat3 S p0 p1 c = xat3 S p0 (p1 + 1) c))"
proof -
  obtain s0 s1 where sh: "shape obj = [s0, s1]"
    using wo by (auto simp: wf_objective_def length_Suc_conv numeral_2_eq_2)
  define K where "K = last (xshape S)"
  have len: "length (shape obj) = 2" using sh by simp
  have Ssh: "xshape S = [s0, s1, K]" and Swf: "wf_tensor S"
    using wf_stack_shape(1) [OF ws len] ws sh by (simp_all add: K_def wf_stack_def)
  have nK: "nth_opt (xshape S) 2 = Some K" using wf_stack_shape(2) [OF ws len] by (simp add: K_def)
  define lab where "lab n c = xdata S ! (n * K + c)" for n c
  define agree where "agree a b \<longleftrightarrow> (\<forall>c<K. lab a c = lab b c)" for a b
  have at: "xat3 S a b c = Some (lab (a * s1 + b) c)" if "a < s0" "b < s1" "c < K" for a b c
    using xat3_wf [OF Swf Ssh that] by (simp add: lab_def)
  define Sound where "Sound w \<longleftrightarrow> (\<forall>a b. in_same_set (parents w) a b \<longrightarrow> agree a b)" for w :: ufd
  define Mono where "Mono w w' \<longleftrightarrow>
      (\<forall>a b. in_same_set (parents w) a b \<longrightarrow> in_same_set (parents w') a b)" for w w' :: ufd
  define C where "C p0 p1 w \<longleftrightarrow>
      (p0 + 1 < s0 \<and> agree (p0 * s1 + p1) ((p0 + 1) * s1 + p1)
         \<longrightarrow> in_same_set (parents w) (p0 * s1 + p1) ((p0 + 1) * s1 + p1))
    \<and> (p1 + 1 < s1 \<and> agree (p0 * s1 + p1) (p0 * s1 + (p1 + 1))
         \<longrightarrow> in_same_set (parents w) (p0 * s1 + p1) (p0 * s1 + (p1 + 1)))" for p0 p1 and w :: ufd
  have ball_upt: "(\<forall>c\<in>set [0..<K]. lab a c = lab b c) = agree a b" for a b
    by (auto simp: agree_def)
  have agree_eq: "agree a a" "agree a b \<Longrightarrow> agree b a"
    "agree a b \<Longrightarrow> agree b c \<Longrightarrow> agree a c" for a b c
    by (auto simp: agree_def)
  have ax: "Sound w' \<and> Mono w w' \<and> (agree x y \<longrightarrow> in_same_set (parents w') x y)"
    if r: "(if agree x y then ufd_merge w x y else Some w) = Some w'" and S: "Sound w"
    for w w' x y
  proof (cases "agree x y")
    case False
    then show ?thesis using r S by (auto simp: Mono_def)
  next
    case True
    then have m: "ufd_merge w x y = Some w'" using r by simp
    note ms = ufd_merge_same_set [OF m]
    have "agree a b" if "in_same_set (parents w') a b" for a b
    proof -
      from ms(3) [OF that] consider "in_same_set (parents w) a b"
        | "in_same_set (parents w) a x" "in_same_set (parents w) y b"
        | "in_same_set (parents w) a y" "in_same_set (parents w) x b"
        by blast
      then show ?thesis
      proof cases
        case 1
        then show ?thesis using S by (simp add: Sound_def)
      next
        case 2
        then have "agree a x" "agree y b" using S by (simp_all add: Sound_def)
        then show ?thesis using True agree_eq(3) by blast
      next
        case 3
        then have "agree a y" "agree x b" using S by (simp_all add: Sound_def)
        then show ?thesis using agree_eq(2) [OF True] agree_eq(3) by blast
      qed
    qed
    then show ?thesis using ms(1,2) by (auto simp: Sound_def Mono_def)
  qed
  define body where "body p0 = (\<lambda>p1 (node_p, u). do {
         u \<leftarrow> (if p0 + 1 < shape obj ! 0 then do {
                 do_merge \<leftarrow> do_merge_loop (\<lambda>c. do {
                   p_label \<leftarrow> xat3 S p0 p1 c;
                   q_label \<leftarrow> xat3 S (p0 + 1) p1 c;
                   Some (p_label, q_label)
                 }) [0..<K];
                 if do_merge then ufd_merge u node_p (node_p + shape obj ! 1) else Some u
               } else Some u);
         u \<leftarrow> (if p1 + 1 < shape obj ! 1 then do {
                 do_merge \<leftarrow> do_merge_loop (\<lambda>c. do {
                   p_label \<leftarrow> xat3 S p0 p1 c;
                   q_label \<leftarrow> xat3 S p0 (p1 + 1) c;
                   Some (p_label, q_label)
                 }) [0..<K];
                 if do_merge then ufd_merge u node_p (node_p + 1) else Some u
               } else Some u);
         Some (node_p + 1, u)
       })" for p0 :: nat
  have step: "n' = Suc (p0 * s1 + p1) \<and> Sound w' \<and> Mono w w' \<and> C p0 p1 w'"
    if b: "body p0 p1 (p0 * s1 + p1, w) = Some (n', w')" and p: "p0 < s0" "p1 < s1"
      and S: "Sound w" for p0 p1 w n' w'
  proof -
    define n where "n = p0 * s1 + p1"
    have i0: "(p0 + 1) * s1 + p1 = n + s1" and i1: "p0 * s1 + (p1 + 1) = n + 1"
      by (simp_all add: n_def)
    define m0 where "m0 v = (if p0 + 1 < s0
        then (if agree n (n + s1) then ufd_merge v n (n + s1) else Some v)
        else Some v)" for v :: ufd
    define m1 where "m1 v = (if p1 + 1 < s1
        then (if agree n (n + 1) then ufd_merge v n (n + 1) else Some v)
        else Some v)" for v :: ufd
    have e0: "(if p0 + 1 < shape obj ! 0 then do {
                 do_merge \<leftarrow> do_merge_loop (\<lambda>c. do {
                   p_label \<leftarrow> xat3 S p0 p1 c;
                   q_label \<leftarrow> xat3 S (p0 + 1) p1 c;
                   Some (p_label, q_label)
                 }) [0..<K];
                 if do_merge then ufd_merge v n (n + shape obj ! 1) else Some v
               } else Some v) = m0 v" for v
    proof (cases "p0 + 1 < s0")
      case True
      have q: "xat3 S (p0 + 1) p1 c = Some (lab (n + s1) c)" if "c < K" for c
        using at [OF True p(2) that] by (simp only: i0)
      have "do_merge_loop (\<lambda>c. do {
                   p_label \<leftarrow> xat3 S p0 p1 c;
                   q_label \<leftarrow> xat3 S (p0 + 1) p1 c;
                   Some (p_label, q_label)
                 }) [0..<K] = Some (\<forall>c\<in>set [0..<K]. lab n c = lab (n + s1) c)"
      proof (rule do_merge_loop_char [where f = "\<lambda>c. lab n c" and g = "\<lambda>c. lab (n + s1) c"],
          rule ballI)
        fix c assume "c \<in> set [0..<K]"
        then have c: "c < K" by simp
        show "do {
                   p_label \<leftarrow> xat3 S p0 p1 c;
                   q_label \<leftarrow> xat3 S (p0 + 1) p1 c;
                   Some (p_label, q_label)
                 } = Some (lab n c, lab (n + s1) c)"
          unfolding q [OF c] at [OF p c] n_def by simp
      qed
      then have "do_merge_loop (\<lambda>c. do {
                   p_label \<leftarrow> xat3 S p0 p1 c;
                   q_label \<leftarrow> xat3 S (p0 + 1) p1 c;
                   Some (p_label, q_label)
                 }) [0..<K] = Some (agree n (n + s1))"
        by (simp only: ball_upt)
      then show ?thesis using True unfolding m0_def sh by simp
    next
      case False
      then show ?thesis unfolding m0_def sh by simp
    qed
    have e1: "(if p1 + 1 < shape obj ! 1 then do {
                 do_merge \<leftarrow> do_merge_loop (\<lambda>c. do {
                   p_label \<leftarrow> xat3 S p0 p1 c;
                   q_label \<leftarrow> xat3 S p0 (p1 + 1) c;
                   Some (p_label, q_label)
                 }) [0..<K];
                 if do_merge then ufd_merge v n (n + 1) else Some v
               } else Some v) = m1 v" for v
    proof (cases "p1 + 1 < s1")
      case True
      have q: "xat3 S p0 (p1 + 1) c = Some (lab (n + 1) c)" if "c < K" for c
        using at [OF p(1) True that] by (simp only: i1)
      have "do_merge_loop (\<lambda>c. do {
                   p_label \<leftarrow> xat3 S p0 p1 c;
                   q_label \<leftarrow> xat3 S p0 (p1 + 1) c;
                   Some (p_label, q_label)
                 }) [0..<K] = Some (\<forall>c\<in>set [0..<K]. lab n c = lab (n + 1) c)"
      proof (rule do_merge_loop_char [where f = "\<lambda>c. lab n c" and g = "\<lambda>c. lab (n + 1) c"],
          rule ballI)
        fix c assume "c \<in> set [0..<K]"
        then have c: "c < K" by simp
        show "do {
                   p_label \<leftarrow> xat3 S p0 p1 c;
                   q_label \<leftarrow> xat3 S p0 (p1 + 1) c;
                   Some (p_label, q_label)
                 } = Some (lab n c, lab (n + 1) c)"
          unfolding q [OF c] at [OF p c] n_def by simp
      qed
      then have "do_merge_loop (\<lambda>c. do {
                   p_label \<leftarrow> xat3 S p0 p1 c;
                   q_label \<leftarrow> xat3 S p0 (p1 + 1) c;
                   Some (p_label, q_label)
                 }) [0..<K] = Some (agree n (n + 1))"
        by (simp only: ball_upt)
      then show ?thesis using True unfolding m1_def sh by simp
    next
      case False
      then show ?thesis unfolding m1_def sh by simp
    qed
    have bb: "body p0 p1 (n, w) = do { v \<leftarrow> m0 w; v \<leftarrow> m1 v; Some (n + 1, v) }"
      unfolding body_def by (simp only: prod.case e0 e1)
    from b obtain w1 where r1: "m0 w = Some w1" and r2: "m1 w1 = Some w'" and n': "n' = Suc n"
      unfolding n_def [symmetric] bb by (auto simp: bind_eq_Some_conv)
    have a1: "Sound w1 \<and> Mono w w1
              \<and> (p0 + 1 < s0 \<and> agree n (n + s1) \<longrightarrow> in_same_set (parents w1) n (n + s1))"
    proof (cases "p0 + 1 < s0")
      case True
      then show ?thesis using ax [of n "n + s1" w w1] r1 S by (simp add: m0_def)
    next
      case False
      then show ?thesis using r1 S by (auto simp: Mono_def m0_def)
    qed
    have a2: "Sound w' \<and> Mono w1 w'
              \<and> (p1 + 1 < s1 \<and> agree n (n + 1) \<longrightarrow> in_same_set (parents w') n (n + 1))"
    proof (cases "p1 + 1 < s1")
      case True
      then show ?thesis using ax [of n "n + 1" w1 w'] r2 a1 by (simp add: m1_def)
    next
      case False
      then show ?thesis using r2 a1 by (auto simp: Mono_def m1_def)
    qed
    have "n' = Suc n \<and> Sound w' \<and> Mono w w'
          \<and> (p0 + 1 < s0 \<and> agree n (n + s1) \<longrightarrow> in_same_set (parents w') n (n + s1))
          \<and> (p1 + 1 < s1 \<and> agree n (n + 1) \<longrightarrow> in_same_set (parents w') n (n + 1))"
      using n' a1 a2 unfolding Mono_def by blast
    then show ?thesis unfolding C_def i0 i1 unfolding n_def by blast
  qed
  have Cmono: "C p0 p1 w \<Longrightarrow> Mono w w' \<Longrightarrow> C p0 p1 w'" for p0 p1 w w'
    unfolding C_def Mono_def by blast
  have inner: "fst t' = Suc p0 * s1 \<and> Sound (snd t') \<and> Mono (snd t) (snd t')
               \<and> (\<forall>p1<s1. C p0 p1 (snd t'))"
    if f: "foldM (body p0) [0..<s1] t = Some t'" and t: "fst t = p0 * s1" "Sound (snd t)"
      and p0: "p0 < s0" for p0 t t'
  proof -
    let ?I = "\<lambda>i (x :: nat \<times> ufd). fst x = p0 * s1 + i \<and> Sound (snd x) \<and> Mono (snd t) (snd x)
                \<and> (\<forall>p1<i. C p0 p1 (snd x))"
    have "?I s1 t'"
    proof (rule foldM_upt_inv [OF f, where I = ?I])
      show "?I 0 t" using t by (simp add: Mono_def)
    next
      fix i x x' assume i: "i < s1" and I: "?I i x" and b: "body p0 i x = Some x'"
      have b': "body p0 i (p0 * s1 + i, snd x) = Some (fst x', snd x')"
        using b I by (cases x) simp
      from step [OF b' p0 i] I have
        st: "fst x' = Suc (p0 * s1 + i)" "Sound (snd x')" "Mono (snd x) (snd x')"
            "C p0 i (snd x')"
        by simp_all
      have "Mono (snd t) (snd x')" using I st(3) unfolding Mono_def by blast
      moreover have "\<forall>p1<Suc i. C p0 p1 (snd x')"
        using I st(3,4) Cmono by (auto simp: less_Suc_eq)
      ultimately show "?I (Suc i) x'" using st(1,2) by simp
    qed
    then show ?thesis by simp
  qed
  have s01: "shape obj ! 0 = s0" "shape obj ! 1 = s1" by (simp_all add: sh)
  have fm: "fusion2_merge_ufd2 obj (ufd_reset u) S = do {
      (node_p, u) \<leftarrow> foldM (\<lambda>p0. foldM (body p0) [0..<shape obj ! 1]) [0..<shape obj ! 0]
                       (0, ufd_reset u);
      Some u }"
    unfolding fusion2_merge_ufd2_def body_def nK by (simp only: bind.bind_lunit)
  from run obtain n where run'': "foldM (\<lambda>p0. foldM (body p0) [0..<s1]) [0..<s0] (0, ufd_reset u)
                           = Some (n, u')"
    unfolding fm s01 by (auto simp: bind_eq_Some_conv)
  let ?J = "\<lambda>i (x :: nat \<times> ufd). fst x = i * s1 \<and> Sound (snd x)
                \<and> (\<forall>p0<i. \<forall>p1<s1. C p0 p1 (snd x))"
  have J: "?J s0 (n, u')"
  proof (rule foldM_upt_inv [OF run'', where I = ?J])
    show "?J 0 (0, ufd_reset u)"
      using in_same_set_reset agree_eq(1) by (auto simp: Sound_def)
  next
    fix i x x' assume i: "i < s0" and I: "?J i x" and f: "foldM (body i) [0..<s1] x = Some x'"
    from inner [OF f _ _ i] I have
      st: "fst x' = Suc i * s1" "Sound (snd x')" "Mono (snd x) (snd x')"
          "\<forall>p1<s1. C i p1 (snd x')"
      by simp_all
    have "C p0 p1 (snd x')" if "p0 < Suc i" "p1 < s1" for p0 p1
    proof (cases "p0 = i")
      case True
      then show ?thesis using st(4) that by simp
    next
      case False
      then have "C p0 p1 (snd x)" using I that by simp
      then show ?thesis using st(3) by (rule Cmono)
    qed
    then have "\<forall>p0<Suc i. \<forall>p1<s1. C p0 p1 (snd x')" by blast
    then show "?J (Suc i) x'" using st(1,2) by simp
  qed
  have fin: "(p0 + 1 < s0 \<longrightarrow>
         in_same_set (parents u') (p0 * s1 + p1) ((p0 + 1) * s1 + p1)
           = (\<forall>c<K. xat3 S p0 p1 c = xat3 S (p0 + 1) p1 c))
    \<and> (p1 + 1 < s1 \<longrightarrow>
         in_same_set (parents u') (p0 * s1 + p1) (p0 * s1 + (p1 + 1))
           = (\<forall>c<K. xat3 S p0 p1 c = xat3 S p0 (p1 + 1) c))"
    if p: "p0 < s0" "p1 < s1" for p0 p1
  proof -
    have c: "C p0 p1 u'" and so: "Sound u'" using J p by simp_all
    have e0: "(\<forall>c<K. xat3 S p0 p1 c = xat3 S (p0 + 1) p1 c)
                = agree (p0 * s1 + p1) ((p0 + 1) * s1 + p1)" if "p0 + 1 < s0"
      using at p that by (simp add: agree_def)
    have e1: "(\<forall>c<K. xat3 S p0 p1 c = xat3 S p0 (p1 + 1) c)
                = agree (p0 * s1 + p1) (p0 * s1 + (p1 + 1))" if "p1 + 1 < s1"
      using at p that by (simp add: agree_def)
    show ?thesis using c so e0 e1 unfolding C_def Sound_def by blast
  qed
  then show ?thesis by (simp add: sh K_def)
qed

section \<open>The two-axis engine: the weights of the contracted objective\<close>

text \<open>
  The contracted objective that \<open>_build_\<close> of the two-axis engine hands to the solver:
  for two distinct dense components \<open>a\<close> and \<open>b\<close> (the entries of \<open>res\<close>), the weight
  it holds for the pair is the sum of \<open>weight(p, k)\<close> over the positions \<open>p\<close> and
  offsets \<open>k\<close> whose neighbour is inside the grid and whose two end points lie one in
  \<open>a\<close> and one in \<open>b\<close>.  The pair has at most one entry, stored under (smaller,
  larger), because distinct roots get distinct dense ids; so the weight is the value
  of that entry, or zero when there is none.  This is the behaviour the three-axis
  \<open>_build_\<close> departs from.
\<close>

lemma fusion2_build_weights:
  assumes b: "fusion2_build obj sf u1 res0 = Some (u, res, cc_obj, cc, e)"
    and wo: "wf_objective 2 obj"
    and ab: "a \<noteq> b"
  shows "contracted_weight cc_obj a b
          = (\<Sum>p0<shape obj ! 0. \<Sum>p1<shape obj ! 1. \<Sum>k<n_offsets obj.
               let q0 = int p0 + the (xat2 (offsets obj) k 0);
                   q1 = int p1 + the (xat2 (offsets obj) k 1)
               in if 0 \<le> q0 \<and> q0 < int (shape obj ! 0) \<and> 0 \<le> q1 \<and> q1 < int (shape obj ! 1)
                     \<and> (xdata res ! (p0 * shape obj ! 1 + p1) = a
                          \<and> xdata res ! (nat (q0 * int (shape obj ! 1) + q1)) = b
                        \<or> xdata res ! (p0 * shape obj ! 1 + p1) = b
                          \<and> xdata res ! (nat (q0 * int (shape obj ! 1) + q1)) = a)
                  then the (xat3 (weights obj) p0 p1 k) else 0)"
proof -
  obtain s0 s1 where sh: "shape obj = [s0, s1]"
    using wo by (auto simp: wf_objective_def length_Suc_conv numeral_2_eq_2)
  have N: "n_variables obj = s0 * s1" using wo sh by (simp add: wf_objective_def)
  let ?td = "representativeLabeling u1"
  from b obtain u2 d n3 u3 g n4 u4 where
    dr: "dense_relabel obj ?td u1 (xdata res0) = Some (u2, d)"
    and res: "res = res0\<lparr>xdata := d\<rparr>"
    and ie: "fusion2_insert_edges obj ?td u2 (UndirectedGraph (numberOfSets u1)) = Some (n3, u3, g)"
    and fl: "fusion2_fill_lifted obj ?td u3 (LiftedMulticutObjective g) = Some (n4, u4, cc_obj)"
    by (auto simp: fusion2_build_def bind_eq_Some_conv Let_def)
  note dc = dense_relabel_char [OF dr]
  define comp where "comp x = to_dense_at ?td (THE r. is_rep (parents u1) x r)" for x
  have comp: "comp x = to_dense_at ?td r" if "is_rep (parents u1) x r" for x r
  proof -
    have "(THE r. is_rep (parents u1) x r) = r"
      using that by (auto intro: the_equality dest: is_rep_det)
    then show ?thesis by (simp add: comp_def)
  qed
  have dcomp: "xdata res ! var = comp var" if "var < s0 * s1" for var
    using dc(3) that N comp res by auto
  have s3: "same_reps u3 u1" using fusion2_insert_edges_reps [OF ie dc(2)] .
  let ?T = "\<lambda>u v. (u = a \<and> v = b) \<or> (u = b \<and> v = a)"
  have z: "lifted_sum ?T (lifted (LiftedMulticutObjective g)) = 0"
    by (simp add: LiftedMulticutObjective_def lifted_sum_def)
  have irr: "\<not> ?T c c" for c using ab by auto
  have sym: "?T c d = ?T d c" for c d by auto
  note fe = fusion2_fill_lifted_sum(2) [where T = ?T and comp = comp and ?u1.0 = u1,
              OF fl s3 comp irr sym]
  have tme: "(let q0 = int p0 + the (xat2 (offsets obj) k 0);
                   q1 = int p1 + the (xat2 (offsets obj) k 1)
               in if 0 \<le> q0 \<and> q0 < int (shape obj ! 0) \<and> 0 \<le> q1 \<and> q1 < int (shape obj ! 1)
                     \<and> (comp (p0 * shape obj ! 1 + p1) = a
                          \<and> comp (nat (q0 * int (shape obj ! 1) + q1)) = b
                        \<or> comp (p0 * shape obj ! 1 + p1) = b
                          \<and> comp (nat (q0 * int (shape obj ! 1) + q1)) = a)
                  then the (xat3 (weights obj) p0 p1 k) else 0)
       = (let q0 = int p0 + the (xat2 (offsets obj) k 0);
                   q1 = int p1 + the (xat2 (offsets obj) k 1)
               in if 0 \<le> q0 \<and> q0 < int (shape obj ! 0) \<and> 0 \<le> q1 \<and> q1 < int (shape obj ! 1)
                     \<and> (xdata res ! (p0 * shape obj ! 1 + p1) = a
                          \<and> xdata res ! (nat (q0 * int (shape obj ! 1) + q1)) = b
                        \<or> xdata res ! (p0 * shape obj ! 1 + p1) = b
                          \<and> xdata res ! (nat (q0 * int (shape obj ! 1) + q1)) = a)
                  then the (xat3 (weights obj) p0 p1 k) else 0)"
    if "p0 < shape obj ! 0" "p1 < shape obj ! 1" for p0 p1 k
  proof -
    have p: "p0 < s0" "p1 < s1" using that sh by simp_all
    have dp: "xdata res ! (p0 * s1 + p1) = comp (p0 * s1 + p1)"
      using dcomp [OF idx2_less [OF p]] .
    have dq: "xdata res ! (nat (q0 * int s1 + q1)) = comp (nat (q0 * int s1 + q1))"
      if "0 \<le> q0" "q0 < int s0" "0 \<le> q1" "q1 < int s1" for q0 q1
    proof -
      have "nat q0 < s0" "nat q1 < s1" using that by auto
      from dcomp [OF idx2_less [OF this]] nat_flat2 [OF that(1,3)] show ?thesis by simp
    qed
    show ?thesis using dp dq by (auto simp: Let_def sh)
  qed
  have "contracted_weight cc_obj a b
        = (\<Sum>p0<shape obj ! 0. \<Sum>p1<shape obj ! 1. \<Sum>k<n_offsets obj.
               let q0 = int p0 + the (xat2 (offsets obj) k 0);
                   q1 = int p1 + the (xat2 (offsets obj) k 1)
               in if 0 \<le> q0 \<and> q0 < int (shape obj ! 0) \<and> 0 \<le> q1 \<and> q1 < int (shape obj ! 1)
                     \<and> (comp (p0 * shape obj ! 1 + p1) = a
                          \<and> comp (nat (q0 * int (shape obj ! 1) + q1)) = b
                        \<or> comp (p0 * shape obj ! 1 + p1) = b
                          \<and> comp (nat (q0 * int (shape obj ! 1) + q1)) = a)
                  then the (xat3 (weights obj) p0 p1 k) else 0)"
    unfolding contracted_weight_def
    by (rule trans [OF fe], assumption, subst z, rule add_0)
  also have "\<dots> = (\<Sum>p0<shape obj ! 0. \<Sum>p1<shape obj ! 1. \<Sum>k<n_offsets obj.
               let q0 = int p0 + the (xat2 (offsets obj) k 0);
                   q1 = int p1 + the (xat2 (offsets obj) k 1)
               in if 0 \<le> q0 \<and> q0 < int (shape obj ! 0) \<and> 0 \<le> q1 \<and> q1 < int (shape obj ! 1)
                     \<and> (xdata res ! (p0 * shape obj ! 1 + p1) = a
                          \<and> xdata res ! (nat (q0 * int (shape obj ! 1) + q1)) = b
                        \<or> xdata res ! (p0 * shape obj ! 1 + p1) = b
                          \<and> xdata res ! (nat (q0 * int (shape obj ! 1) + q1)) = a)
                  then the (xat3 (weights obj) p0 p1 k) else 0)"
    by (intro sum.cong refl tme) simp_all
  finally show ?thesis .
qed

lemma add_cost_keys: "fst ` set (add_cost e w l) = insert e (fst ` set l)"
proof (induction l)
  case Nil
  then show ?case by simp
next
  case (Cons h l)
  obtain e' w' where h: "h = (e', w')" by (cases h)
  show ?case using Cons.IH by (cases "e' = e") (auto simp: h)
qed

lemma add_cost_distinct:
  "distinct (map fst l) \<Longrightarrow> distinct (map fst (add_cost e w l))"
proof (induction l)
  case Nil
  then show ?case by simp
next
  case (Cons h l)
  obtain e' w' where h: "h = (e', w')" by (cases h)
  show ?case using Cons by (cases "e' = e") (auto simp: h add_cost_keys)
qed

lemma keys_ok_setCost:
  assumes "keys_ok c" and "a \<noteq> b"
  shows "keys_ok (setCost c a b w)"
proof -
  have "min a b < max a b" using assms(2) by (simp add: min_def max_def)
  then show ?thesis
    using assms(1) by (simp add: keys_ok_def setCost_def add_cost_distinct add_cost_keys)
qed

lemma lifted_sum_none:
  "\<forall>k\<in>fst ` set l. \<not> T (fst k) (snd k) \<Longrightarrow> lifted_sum T l = 0"
  by (induction l) (auto simp: lifted_sum_def)

lemma lifted_sum_entry:
  assumes "distinct (map fst l)" and "((x, y), w) \<in> set l" and "T x y"
    and "\<forall>k\<in>fst ` set l. T (fst k) (snd k) \<longrightarrow> k = (x, y)"
  shows "lifted_sum T l = w"
  using assms
proof (induction l)
  case Nil
  then show ?case by simp
next
  case (Cons e l)
  obtain x' y' w' where e: "e = ((x', y'), w')" by (cases e) auto
  show ?case
  proof (cases "(x', y') = (x, y)")
    case True
    then have n: "(x, y) \<notin> fst ` set l" using Cons.prems(1) e by auto
    then have "w' = w" using Cons.prems(2) e True by (auto simp: image_iff)
    moreover have "lifted_sum T l = 0"
    proof (rule lifted_sum_none, rule ballI)
      fix k assume k: "k \<in> fst ` set l"
      show "\<not> T (fst k) (snd k)"
      proof
        assume "T (fst k) (snd k)"
        then have "k = (x, y)" using Cons.prems(4) k by auto
        then show False using n k by simp
      qed
    qed
    ultimately show ?thesis using e True Cons.prems(3) by (simp add: lifted_sum_def)
  next
    case False
    then have "\<not> T x' y'" using Cons.prems(4) e by auto
    moreover have "lifted_sum T l = w"
      using Cons.prems e False by (intro Cons.IH) auto
    ultimately show ?thesis using e by (simp add: lifted_sum_def)
  qed
qed

lemma contracted_weight_entry:
  assumes "keys_ok c" and "((x, y), w) \<in> set (lifted c)"
  shows "contracted_weight c x y = w"
proof -
  have d: "distinct (map fst (lifted c))"
    and o: "\<And>k. k \<in> fst ` set (lifted c) \<Longrightarrow> fst k < snd k"
    using assms(1) unfolding keys_ok_def by blast+
  have "(x, y) \<in> fst ` set (lifted c)" using assms(2) by force
  from o [OF this] have lt: "x < y" by simp
  let ?T = "\<lambda>u v. (u = x \<and> v = y) \<or> (u = y \<and> v = x)"
  have u: "\<forall>k\<in>fst ` set (lifted c). ?T (fst k) (snd k) \<longrightarrow> k = (x, y)"
  proof (intro ballI impI)
    fix k assume k: "k \<in> fst ` set (lifted c)" and t: "?T (fst k) (snd k)"
    have "fst k = x \<and> snd k = y" using o [OF k] t lt by auto
    then show "k = (x, y)" by (simp add: prod_eq_iff)
  qed
  have "lifted_sum ?T (lifted c) = w"
    by (rule lifted_sum_entry [where T = ?T, OF d assms(2) _ u]) simp
  then show ?thesis by (simp add: contracted_weight_def)
qed

lemma contracted_weight_absent:
  assumes "keys_ok c" and "(min x y, max x y) \<notin> fst ` set (lifted c)"
  shows "contracted_weight c x y = 0"
proof -
  have o: "\<And>k. k \<in> fst ` set (lifted c) \<Longrightarrow> fst k < snd k"
    using assms(1) unfolding keys_ok_def by blast
  let ?T = "\<lambda>u v. (u = x \<and> v = y) \<or> (u = y \<and> v = x)"
  have "\<forall>k\<in>fst ` set (lifted c). \<not> ?T (fst k) (snd k)"
  proof (intro ballI notI)
    fix k assume k: "k \<in> fst ` set (lifted c)" and t: "?T (fst k) (snd k)"
    have "fst k = min x y \<and> snd k = max x y" using o [OF k] t by auto
    then have "k = (min x y, max x y)" by (simp add: prod_eq_iff)
    then show False using assms(2) k by simp
  qed
  then have "lifted_sum ?T (lifted c) = 0" by (rule lifted_sum_none)
  then show ?thesis by (simp add: contracted_weight_def)
qed

lemma to_dense_at_inj:
  assumes x: "x < length (parents u)" "parents u ! x = x"
    and y: "y < length (parents u)" "parents u ! y = y"
    and ne: "x \<noteq> y"
  shows "to_dense_at (representativeLabeling u) x \<noteq> to_dense_at (representativeLabeling u) y"
proof -
  define roots where "roots = filter (\<lambda>j. parents u ! j = j) [0..<length (parents u)]"
  have d: "distinct roots" by (simp add: roots_def)
  have td: "representativeLabeling u = zip roots [0..<length roots]"
    by (simp add: representativeLabeling_def roots_def Let_def)
  have at: "to_dense_at (representativeLabeling u) (roots ! i) = i" if "i < length roots" for i
  proof -
    have "map_of (zip roots [0..<length roots]) (roots ! i) = Some ([0..<length roots] ! i)"
      by (rule map_of_zip_nth) (use d that in simp_all)
    then show ?thesis using that by (simp add: to_dense_at_def td)
  qed
  have "x \<in> set roots" "y \<in> set roots" using x y by (simp_all add: roots_def)
  then obtain i j where i: "i < length roots" "roots ! i = x"
    and j: "j < length roots" "roots ! j = y"
    by (auto simp: in_set_conv_nth)
  have "i \<noteq> j" using i j ne by auto
  then show ?thesis using at [OF i(1)] at [OF j(1)] i j by simp
qed

lemma fusion2_fill_lifted_invariant:
  assumes run: "fusion2_fill_lifted obj td u cc_obj0 = Some (node_p, u', cc_obj)"
    and sr: "same_reps u u1"
    and k0: "P cc_obj0"
    and st: "\<And>c x y w. P c \<Longrightarrow> x < length (parents u1) \<Longrightarrow> parents u1 ! x = x
                \<Longrightarrow> y < length (parents u1) \<Longrightarrow> parents u1 ! y = y \<Longrightarrow> x \<noteq> y
                \<Longrightarrow> P (setCost c (to_dense_at td x) (to_dense_at td y) w)"
  shows "P cc_obj"
proof -
  define s0 s1 K where "s0 = shape obj ! 0" and "s1 = shape obj ! 1" and "K = n_offsets obj"
  define kbody where "kbody p0 p1 p_label = (\<lambda>offset_index (u, cc_obj). do {
           o0 \<leftarrow> xat2 (offsets obj) offset_index 0;
           o1 \<leftarrow> xat2 (offsets obj) offset_index 1;
           let q0 = int p0 + o0;
           let q1 = int p1 + o1;
           if q0 \<ge> 0 \<and> q0 < int s0 \<and> q1 \<ge> 0 \<and> q1 < int s1
           then do {
             let node_q = nat (q0 * int s1 + q1);
             (q_label, u) \<leftarrow> ufd_find u node_q;
             if p_label \<noteq> q_label
             then do {
               w \<leftarrow> xat3 (weights obj) p0 p1 offset_index;
               Some (u, setCost cc_obj (to_dense_at td p_label)
                                       (to_dense_at td q_label) w)
             }
             else Some (u, cc_obj)
           }
           else Some (u, cc_obj)
         })" for p0 p1 :: nat and p_label :: nat
  define pbody where "pbody p0 = (\<lambda>p1 (node_p, u, cc_obj). do {
       (p_label, u) \<leftarrow> ufd_find u node_p;
       (u, cc_obj) \<leftarrow> foldM (kbody p0 p1 p_label) [0..<K] (u, cc_obj);
       Some (node_p + 1, u, cc_obj)
     })" for p0 :: nat
  define Ik where "Ik t \<longleftrightarrow> same_reps (fst t) u1 \<and> P (snd t)"
    for t :: "ufd \<times> cc_objective"
  define Ip where "Ip t \<longleftrightarrow> same_reps (fst (snd t)) u1 \<and> P (snd (snd t))"
    for t :: "nat \<times> ufd \<times> cc_objective"
  have kstep: "Ik t'"
    if "kbody p0 p1 p_label k t = Some t'" "Ik t"
      and pr: "p_label < length (parents u1)" "parents u1 ! p_label = p_label"
    for p0 p1 p_label k t t'
  proof -
    obtain v c where t: "t = (v, c)" by (cases t)
    obtain v' c' where t': "t' = (v', c')" by (cases t')
    have kc: "P c" and sv: "same_reps v u1" using that(2) t by (simp_all add: Ik_def)
    from that(1) obtain o0 o1 where
      o: "xat2 (offsets obj) k 0 = Some o0" "xat2 (offsets obj) k 1 = Some o1"
      unfolding t by (auto simp: kbody_def bind_eq_Some_conv)
    show ?thesis
    proof (cases "0 \<le> int p0 + o0 \<and> int p0 + o0 < int s0 \<and> 0 \<le> int p1 + o1 \<and> int p1 + o1 < int s1")
      case False
      then have "c' = c" "v' = v"
        using that(1) o unfolding t t' by (auto simp: kbody_def Let_def)
      then show ?thesis using kc sv t' by (simp add: Ik_def)
    next
      case True
      let ?nq = "nat ((int p0 + o0) * int s1 + (int p1 + o1))"
      from that(1) True o obtain q_label where
        f: "ufd_find v ?nq = Some (q_label, v')"
        and r: "(if p_label \<noteq> q_label
                 then Option.bind (xat3 (weights obj) p0 p1 k)
                        (\<lambda>w. Some (v', setCost c (to_dense_at td p_label)
                                                  (to_dense_at td q_label) w))
                 else Some (v', c)) = Some (v', c')"
        unfolding t t' by (auto simp: kbody_def bind_eq_Some_conv Let_def split: if_splits)
      note fr = ufd_find_same_reps [OF f sv]
      have qr: "q_label < length (parents u1)" "parents u1 ! q_label = q_label"
        using is_rep_root [OF fr(2)] by simp_all
      show ?thesis
      proof (cases "p_label = q_label")
        case eq: True
        then have "c' = c" using r by simp
        then show ?thesis using kc fr(1) t' by (simp add: Ik_def)
      next
        case ne: False
        then obtain w where
          c': "c' = setCost c (to_dense_at td p_label) (to_dense_at td q_label) w"
          using r by (auto simp: bind_eq_Some_conv)
        from st [OF kc pr qr ne] show ?thesis
          using c' t' fr(1) by (simp add: Ik_def)
      qed
    qed
  qed
  have kloop: "Ik t'"
    if "foldM (kbody p0 p1 p_label) [0..<K] t = Some t'" "Ik t"
      and pr: "p_label < length (parents u1)" "parents u1 ! p_label = p_label"
    for p0 p1 p_label t t'
  proof (rule foldM_invariant [OF that(1), where P = Ik])
    show "Ik t" by (rule that(2))
  next
    fix k s s' assume "Ik s" and "kbody p0 p1 p_label k s = Some s'"
    then show "Ik s'" using kstep pr by blast
  qed
  have pstep: "Ip t'" if "pbody p0 p1 t = Some t'" "Ip t" for p0 p1 t t'
  proof -
    obtain n v c where t: "t = (n, v, c)" by (cases t)
    from that(1) obtain p_label v1 x where
      f: "ufd_find v n = Some (p_label, v1)"
      and k: "foldM (kbody p0 p1 p_label) [0..<K] (v1, c) = Some x"
      and t': "t' = (n + 1, fst x, snd x)"
      unfolding t pbody_def by (auto simp: bind_eq_Some_conv)
    have sv: "same_reps v u1" and kc: "P c" using that(2) t by (simp_all add: Ip_def)
    note fr = ufd_find_same_reps [OF f sv]
    have pr: "p_label < length (parents u1)" "parents u1 ! p_label = p_label"
      using is_rep_root [OF fr(2)] by simp_all
    have "Ik (v1, c)" using fr(1) kc by (simp add: Ik_def)
    from kloop [OF k this pr] show ?thesis by (simp add: t' Ik_def Ip_def)
  qed
  have ploop: "Ip t'" if "foldM (pbody p0) [0..<s1] t = Some t'" "Ip t" for p0 t t'
  proof (rule foldM_invariant [OF that(1), where P = Ip])
    show "Ip t" by (rule that(2))
  next
    fix p1 s s' assume "Ip s" and "pbody p0 p1 s = Some s'"
    then show "Ip s'" using pstep by blast
  qed
  have run': "foldM (\<lambda>p0. foldM (pbody p0) [0..<s1]) [0..<s0] (0, u, cc_obj0)
               = Some (node_p, u', cc_obj)"
    using run unfolding fusion2_fill_lifted_def pbody_def kbody_def s0_def s1_def K_def .
  have "Ip (node_p, u', cc_obj)"
  proof (rule foldM_invariant [OF run', where P = Ip])
    show "Ip (0, u, cc_obj0)" using k0 sr by (simp add: Ip_def)
  next
    fix p0 s s' assume "Ip s" and "foldM (pbody p0) [0..<s1] s = Some s'"
    then show "Ip s'" using ploop by blast
  qed
  then show ?thesis by (simp add: Ip_def)
qed

lemma fusion2_fill_lifted_keys:
  assumes run: "fusion2_fill_lifted obj td u cc_obj0 = Some (node_p, u', cc_obj)"
    and sr: "same_reps u u1"
    and inj: "\<And>x y. x < length (parents u1) \<Longrightarrow> parents u1 ! x = x
                \<Longrightarrow> y < length (parents u1) \<Longrightarrow> parents u1 ! y = y \<Longrightarrow> x \<noteq> y
                \<Longrightarrow> to_dense_at td x \<noteq> to_dense_at td y"
    and k0: "keys_ok cc_obj0"
  shows "keys_ok cc_obj"
proof (rule fusion2_fill_lifted_invariant [OF run sr, where P = keys_ok])
  show "keys_ok cc_obj0" by (rule k0)
next
  fix c x y w
  assume "keys_ok c" and "x < length (parents u1)" "parents u1 ! x = x"
    and "y < length (parents u1)" "parents u1 ! y = y" and "x \<noteq> y"
  then show "keys_ok (setCost c (to_dense_at td x) (to_dense_at td y) w)"
    using inj keys_ok_setCost by blast
qed

lemma fusion2_build_keys:
  assumes b: "fusion2_build obj sf u1 res0 = Some (u, res, cc_obj, cc, e)"
  shows "keys_ok cc_obj"
proof -
  let ?td = "representativeLabeling u1"
  from b obtain u2 d n3 u3 g n4 u4 where
    dr: "dense_relabel obj ?td u1 (xdata res0) = Some (u2, d)"
    and ie: "fusion2_insert_edges obj ?td u2 (UndirectedGraph (numberOfSets u1)) = Some (n3, u3, g)"
    and fl: "fusion2_fill_lifted obj ?td u3 (LiftedMulticutObjective g) = Some (n4, u4, cc_obj)"
    by (auto simp: fusion2_build_def bind_eq_Some_conv Let_def)
  note dc = dense_relabel_char [OF dr]
  have s3: "same_reps u3 u1" using fusion2_insert_edges_reps [OF ie dc(2)] .
  have k0: "keys_ok (LiftedMulticutObjective g)"
    by (simp add: keys_ok_def LiftedMulticutObjective_def)
  show ?thesis
    by (rule fusion2_fill_lifted_keys [OF fl s3 _ k0]) (rule to_dense_at_inj)
qed

section \<open>The two-axis engine returns\<close>

text \<open>
  The runs of the model fail where the program would read outside an array, address
  a node that does not exist, or walk the forest without end.  None of this happens in
  the two-axis engine: for a well-formed objective and well-formed candidates, a
  forest of the size of the grid, and a solver that returns a labeling of the nodes
  it was given, both forms of \<open>fuse\<close> return a result (and leave a forest of the
  same size behind).  The forest stays within its invariant, so the fuel of
  \<open>ufd_find\<close> suffices; every dense component id is below the number of sets, so
  the solver's labeling is read inside its bounds.
\<close>

lemma ufd_find_returns:
  assumes "ufd_inv u" and "x < length (parents u)"
  shows "\<exists>r u'. ufd_find u x = Some (r, u') \<and> ufd_inv u'
           \<and> length (parents u') = length (parents u)
           \<and> r < length (parents u) \<and> parents u ! r = r"
proof -
  from ufd_find_total [OF assms] obtain r u' where
    f: "ufd_find u x = Some (r, u')" and i: "ufd_inv u'" by blast
  note fr = ufd_find_is_rep [OF f]
  from is_rep_root [OF fr(1)] fr(2) f i show ?thesis by blast
qed

lemma ufd_merge_returns:
  assumes "ufd_inv u" and "x < length (parents u)" and "y < length (parents u)"
  shows "\<exists>u'. ufd_merge u x y = Some u' \<and> ufd_inv u'
           \<and> length (parents u') = length (parents u)"
proof -
  from ufd_merge_total [OF assms] obtain u' where
    m: "ufd_merge u x y = Some u'" and i: "ufd_inv u'" by blast
  from ufd_merge_reps [OF m] have "length (parents u') = length (parents u)" by blast
  then show ?thesis using m i by blast
qed

lemma to_dense_at_less:
  assumes i: "ufd_inv u" and x: "x < length (parents u)" "parents u ! x = x"
  shows "to_dense_at (representativeLabeling u) x < numberOfSets u"
proof -
  define roots where "roots = filter (\<lambda>j. parents u ! j = j) [0..<length (parents u)]"
  have d: "distinct roots" by (simp add: roots_def)
  have td: "representativeLabeling u = zip roots [0..<length roots]"
    by (simp add: representativeLabeling_def roots_def Let_def)
  have at: "to_dense_at (representativeLabeling u) (roots ! i) = i" if "i < length roots" for i
  proof -
    have "map_of (zip roots [0..<length roots]) (roots ! i) = Some ([0..<length roots] ! i)"
      by (rule map_of_zip_nth) (use d that in simp_all)
    then show ?thesis using that by (simp add: to_dense_at_def td)
  qed
  have s: "set roots = ufd_roots (parents u)" by (auto simp: roots_def ufd_roots_def)
  have "length roots = card (set roots)" using d by (simp add: distinct_card)
  then have n: "numberOfSets u = length roots" using ufd_inv_basic(2) [OF i] s by simp
  have "x \<in> set roots" using x by (simp add: roots_def)
  then obtain j where j: "j < length roots" "roots ! j = x" by (auto simp: in_set_conv_nth)
  then show ?thesis using at [OF j(1)] n by simp
qed

lemma keys_below_setCost:
  assumes "keys_below N c" and "a < N" and "b < N"
  shows "keys_below N (setCost c a b w)"
  using assms by (auto simp: keys_below_def setCost_def add_cost_keys min_def max_def)

lemma evalNodeLabels_returns:
  assumes "keys_below (length cc) c"
  shows "\<exists>e. evalNodeLabels c cc = Some e"
proof -
  have "\<exists>e. foldM (\<lambda>((u, v), w) e. do {
       lu \<leftarrow> nth_opt cc u;
       lv \<leftarrow> nth_opt cc v;
       Some (if lu \<noteq> lv then e + w else e)
     }) l e0 = Some e"
    if "\<forall>k\<in>fst ` set l. fst k < length cc \<and> snd k < length cc" for l and e0 :: real
    using that
  proof (induction l arbitrary: e0)
    case Nil
    then show ?case by simp
  next
    case (Cons a l)
    obtain u v w where a: "a = ((u, v), w)" by (cases a) auto
    have uv: "u < length cc" "v < length cc" using Cons.prems a by auto
    have "\<forall>k\<in>fst ` set l. fst k < length cc \<and> snd k < length cc" using Cons.prems by auto
    from Cons.IH [OF this] show ?case using uv by (simp add: a nth_opt_def)
  qed
  then show ?thesis using assms unfolding evalNodeLabels_def keys_below_def by blast
qed

lemma materialize_returns:
  assumes "n_variables obj \<le> length (xdata res)"
    and "\<forall>var<n_variables obj. xdata res ! var < length cc"
  shows "\<exists>r. materialize obj cc res = Some r"
proof -
  let ?I = "\<lambda>i (d :: nat list). length d = length (xdata res)
              \<and> (\<forall>var\<ge>i. d ! var = xdata res ! var)"
  have "\<exists>d. foldM (\<lambda>var d. do {
            dense_var \<leftarrow> nth_opt d var;
            l \<leftarrow> nth_opt cc dense_var;
            upd_opt d var l
          }) [0..<n_variables obj] (xdata res) = Some d \<and> ?I (n_variables obj) d"
  proof (rule foldM_upt_total [where I = ?I])
    show "?I 0 (xdata res)" by simp
  next
    fix i t assume i: "i < n_variables obj" and I: "?I i t"
    have il: "i < length t" using i I assms(1) by simp
    have "t ! i < length cc" using I i assms(2) by simp
    then have "do {
            dense_var \<leftarrow> nth_opt t i;
            l \<leftarrow> nth_opt cc dense_var;
            upd_opt t i l
          } = Some (t[i := cc ! (t ! i)])"
      using il by (simp add: nth_opt_def upd_opt_def)
    moreover have "?I (Suc i) (t[i := cc ! (t ! i)])" using I by simp
    ultimately show "\<exists>t'. do {
            dense_var \<leftarrow> nth_opt t i;
            l \<leftarrow> nth_opt cc dense_var;
            upd_opt t i l
          } = Some t' \<and> ?I (Suc i) t'" by blast
  qed
  then show ?thesis by (auto simp: materialize_def)
qed


lemma fusion2_merge_ufd_returns:
  assumes wo: "wf_objective 2 obj" and wa: "wf_labels obj A" and wb: "wf_labels obj B"
    and inv: "ufd_inv u" and len: "length (parents u) = n_variables obj"
  shows "\<exists>u'. fusion2_merge_ufd obj u A B = Some u' \<and> ufd_inv u'
           \<and> length (parents u') = n_variables obj"
proof -
  obtain s0 s1 where sh: "shape obj = [s0, s1]"
    using wo by (auto simp: wf_objective_def length_Suc_conv numeral_2_eq_2)
  have N: "n_variables obj = s0 * s1" using wo sh by (simp add: wf_objective_def)
  have s01: "shape obj ! 0 = s0" "shape obj ! 1 = s1" by (simp_all add: sh)
  have A: "xshape A = [s0, s1]" "wf_tensor A" and B: "xshape B = [s0, s1]" "wf_tensor B"
    using wa wb sh by (simp_all add: wf_labels_def)
  define U where "U v \<longleftrightarrow> ufd_inv v \<and> length (parents v) = s0 * s1" for v :: ufd
  define body where "body p0 = (\<lambda>p1 (node_p, u). do {
         p_label_a \<leftarrow> xat2 A p0 p1;
         p_label_b \<leftarrow> xat2 B p0 p1;
         u \<leftarrow> (if p0 + 1 < shape obj ! 0 then do {
                 q_label_a \<leftarrow> xat2 A (p0 + 1) p1;
                 q_label_b \<leftarrow> xat2 B (p0 + 1) p1;
                 if p_label_a = q_label_a \<and> p_label_b = q_label_b
                 then ufd_merge u node_p (node_p + shape obj ! 1)
                 else Some u
               } else Some u);
         u \<leftarrow> (if p1 + 1 < shape obj ! 1 then do {
                 q_label_a \<leftarrow> xat2 A p0 (p1 + 1);
                 q_label_b \<leftarrow> xat2 B p0 (p1 + 1);
                 if p_label_a = q_label_a \<and> p_label_b = q_label_b
                 then ufd_merge u node_p (node_p + 1)
                 else Some u
               } else Some u);
         Some (node_p + 1, u)
       })" for p0 :: nat
  have mg: "\<exists>v'. (if c then ufd_merge v x y else Some v) = Some v' \<and> U v'"
    if "U v" "x < s0 * s1" "y < s0 * s1" for c v x y
  proof (cases c)
    case True
    from ufd_merge_returns [of v x y] that show ?thesis using True by (auto simp: U_def)
  next
    case False
    then show ?thesis using that(1) by simp
  qed
  have step: "\<exists>t'. body p0 p1 (p0 * s1 + p1, v) = Some t' \<and> fst t' = p0 * s1 + Suc p1 \<and> U (snd t')"
    if p: "p0 < s0" "p1 < s1" and v: "U v" for p0 p1 v
  proof -
    define n where "n = p0 * s1 + p1"
    have nl: "n < s0 * s1" unfolding n_def using idx2_less [OF p] .
    obtain la lb where la: "xat2 A p0 p1 = Some la" and lb: "xat2 B p0 p1 = Some lb"
      using xat2_wf [OF A(2,1) p] xat2_wf [OF B(2,1) p] by blast
    have e0: "\<exists>v'. (if p0 + 1 < shape obj ! 0 then do {
                 q_label_a \<leftarrow> xat2 A (p0 + 1) p1;
                 q_label_b \<leftarrow> xat2 B (p0 + 1) p1;
                 if la = q_label_a \<and> lb = q_label_b
                 then ufd_merge w n (n + shape obj ! 1)
                 else Some w
               } else Some w) = Some v' \<and> U v'" if w: "U w" for w
    proof (cases "p0 + 1 < s0")
      case True
      obtain qa qb where q: "xat2 A (p0 + 1) p1 = Some qa" "xat2 B (p0 + 1) p1 = Some qb"
        using xat2_wf [OF A(2,1) True p(2)] xat2_wf [OF B(2,1) True p(2)] by blast
      have "(p0 + 1) * s1 + p1 < s0 * s1" using idx2_less [OF True p(2)] .
      then have "n + s1 < s0 * s1" by (simp add: n_def algebra_simps)
      from mg [OF w nl this, of "la = qa \<and> lb = qb"] show ?thesis
        unfolding s01 q using True by simp
    next
      case False
      then show ?thesis unfolding s01 using w by simp
    qed
    have e1: "\<exists>v'. (if p1 + 1 < shape obj ! 1 then do {
                 q_label_a \<leftarrow> xat2 A p0 (p1 + 1);
                 q_label_b \<leftarrow> xat2 B p0 (p1 + 1);
                 if la = q_label_a \<and> lb = q_label_b
                 then ufd_merge w n (n + 1)
                 else Some w
               } else Some w) = Some v' \<and> U v'" if w: "U w" for w
    proof (cases "p1 + 1 < s1")
      case True
      obtain qa qb where q: "xat2 A p0 (p1 + 1) = Some qa" "xat2 B p0 (p1 + 1) = Some qb"
        using xat2_wf [OF A(2,1) p(1) True] xat2_wf [OF B(2,1) p(1) True] by blast
      have "p0 * s1 + (p1 + 1) < s0 * s1" using idx2_less [OF p(1) True] .
      then have "n + 1 < s0 * s1" by (simp add: n_def)
      from mg [OF w nl this, of "la = qa \<and> lb = qb"] show ?thesis
        unfolding s01 q using True by simp
    next
      case False
      then show ?thesis unfolding s01 using w by simp
    qed
    from e0 [OF v] obtain v1 where v1: "(if p0 + 1 < shape obj ! 0 then do {
                 q_label_a \<leftarrow> xat2 A (p0 + 1) p1;
                 q_label_b \<leftarrow> xat2 B (p0 + 1) p1;
                 if la = q_label_a \<and> lb = q_label_b
                 then ufd_merge v n (n + shape obj ! 1)
                 else Some v
               } else Some v) = Some v1" and u1: "U v1" by blast
    from e1 [OF u1] obtain v2 where v2: "(if p1 + 1 < shape obj ! 1 then do {
                 q_label_a \<leftarrow> xat2 A p0 (p1 + 1);
                 q_label_b \<leftarrow> xat2 B p0 (p1 + 1);
                 if la = q_label_a \<and> lb = q_label_b
                 then ufd_merge v1 n (n + 1)
                 else Some v1
               } else Some v1) = Some v2" and u2: "U v2" by blast
    have "body p0 p1 (n, v) = Some (n + 1, v2)"
      unfolding body_def prod.case la lb bind.bind_lunit v1 v2 ..
    then show ?thesis using u2 by (simp add: n_def)
  qed
  have inner: "\<exists>t'. foldM (body p0) [0..<s1] t = Some t' \<and> fst t' = Suc p0 * s1 \<and> U (snd t')"
    if p0: "p0 < s0" and t: "fst t = p0 * s1" "U (snd t)" for p0 t
  proof -
    let ?I = "\<lambda>i (x :: nat \<times> ufd). fst x = p0 * s1 + i \<and> U (snd x)"
    have "\<exists>t'. foldM (body p0) [0..<s1] t = Some t' \<and> ?I s1 t'"
    proof (rule foldM_upt_total [where I = ?I])
      show "?I 0 t" using t by simp
    next
      fix i x assume i: "i < s1" and I: "?I i x"
      have x: "x = (p0 * s1 + i, snd x)" using I by (cases x) simp
      from step [OF p0 i, of "snd x"] I show "\<exists>t'. body p0 i x = Some t' \<and> ?I (Suc i) t'"
        by (subst x) simp
    qed
    then obtain t' where "foldM (body p0) [0..<s1] t = Some t'" "fst t' = p0 * s1 + s1"
      "U (snd t')" by blast
    then show ?thesis by (intro exI [of _ t']) simp
  qed
  let ?J = "\<lambda>i (x :: nat \<times> ufd). fst x = i * s1 \<and> U (snd x)"
  have "\<exists>t'. foldM (\<lambda>p0. foldM (body p0) [0..<s1]) [0..<s0] (0, u) = Some t' \<and> ?J s0 t'"
  proof (rule foldM_upt_total [where I = ?J])
    show "?J 0 (0, u)" using inv len N by (simp add: U_def)
  next
    fix i x assume i: "i < s0" and I: "?J i x"
    from inner [OF i, of x] I
    show "\<exists>t'. foldM (body i) [0..<s1] x = Some t' \<and> ?J (Suc i) t'" by simp
  qed
  then obtain t' where
    f: "foldM (\<lambda>p0. foldM (body p0) [0..<s1]) [0..<s0] (0, u) = Some t'" and u': "U (snd t')"
    by blast
  have "fusion2_merge_ufd obj u A B = do {
      (node_p, u) \<leftarrow> foldM (\<lambda>p0. foldM (body p0) [0..<shape obj ! 1]) [0..<shape obj ! 0] (0, u);
      Some u }"
    unfolding fusion2_merge_ufd_def body_def ..
  then have "fusion2_merge_ufd obj u A B = Some (snd t')"
    unfolding s01 f by (simp add: case_prod_beta)
  then show ?thesis using u' N by (simp add: U_def)
qed


lemma dense_relabel_returns:
  assumes inv: "ufd_inv u0" and len: "length (parents u0) = n_variables obj"
    and dl: "n_variables obj \<le> length d0"
  shows "\<exists>u d. dense_relabel obj td u0 d0 = Some (u, d) \<and> ufd_inv u
           \<and> length (parents u) = n_variables obj"
proof -
  let ?I = "\<lambda>(i :: nat) (s :: ufd \<times> nat list). ufd_inv (fst s)
              \<and> length (parents (fst s)) = n_variables obj \<and> length (snd s) = length d0"
  have "\<exists>s'. foldM (\<lambda>var (u, d). do {
       (r, u) \<leftarrow> ufd_find u var;
       d \<leftarrow> upd_opt d var (to_dense_at td r);
       Some (u, d)
     }) [0..<n_variables obj] (u0, d0) = Some s' \<and> ?I (n_variables obj) s'"
  proof (rule foldM_upt_total [where I = ?I])
    show "?I 0 (u0, d0)" using inv len by simp
  next
    fix i t assume i: "i < n_variables obj" and I: "?I i t"
    obtain v d where t: "t = (v, d)" by (cases t)
    from ufd_find_returns [of v i] I i t obtain r v' where
      f: "ufd_find v i = Some (r, v')" and v': "ufd_inv v'"
        "length (parents v') = n_variables obj"
      by auto
    have "i < length d" using I i dl t by simp
    then have "(case t of (u, d) \<Rightarrow> do {
       (r, u) \<leftarrow> ufd_find u i;
       d \<leftarrow> upd_opt d i (to_dense_at td r);
       Some (u, d)
     }) = Some (v', d[i := to_dense_at td r])"
      using f by (simp add: t upd_opt_def)
    moreover have "?I (Suc i) (v', d[i := to_dense_at td r])" using v' I t by simp
    ultimately show "\<exists>t'. (case t of (u, d) \<Rightarrow> do {
       (r, u) \<leftarrow> ufd_find u i;
       d \<leftarrow> upd_opt d i (to_dense_at td r);
       Some (u, d)
     }) = Some t' \<and> ?I (Suc i) t'" by blast
  qed
  then show ?thesis unfolding dense_relabel_def by auto
qed

lemma numberOfNodes_insertEdge [simp]: "numberOfNodes (insertEdge g a b) = numberOfNodes g"
  by (simp add: insertEdge_def Let_def)

lemma fusion2_insert_edges_returns:
  assumes wo: "wf_objective 2 obj"
    and inv: "ufd_inv u" and len: "length (parents u) = n_variables obj"
  shows "\<exists>n' u' g. fusion2_insert_edges obj td u g0 = Some (n', u', g) \<and> ufd_inv u'
           \<and> length (parents u') = n_variables obj \<and> numberOfNodes g = numberOfNodes g0"
proof -
  obtain s0 s1 where sh: "shape obj = [s0, s1]"
    using wo by (auto simp: wf_objective_def length_Suc_conv numeral_2_eq_2)
  have N: "n_variables obj = s0 * s1" using wo sh by (simp add: wf_objective_def)
  have s01: "shape obj ! 0 = s0" "shape obj ! 1 = s1" by (simp_all add: sh)
  define U where "U v \<longleftrightarrow> ufd_inv v \<and> length (parents v) = s0 * s1" for v :: ufd
  define G where "G g \<longleftrightarrow> numberOfNodes g = numberOfNodes g0" for g :: cc_graph
  define body where "body p0 = (\<lambda>p1 (node_p, u, cc_graph). do {
       (p_label, u) \<leftarrow> ufd_find u node_p;
       (u, cc_graph) \<leftarrow> (if p0 + 1 < shape obj ! 0 then do {
           let node_q = node_p + shape obj ! 1;
           (q_label, u) \<leftarrow> ufd_find u node_q;
           Some (u, if p_label \<noteq> q_label
                    then insertEdge cc_graph (to_dense_at td p_label)
                                             (to_dense_at td q_label)
                    else cc_graph)
         } else Some (u, cc_graph));
       (u, cc_graph) \<leftarrow> (if p1 + 1 < shape obj ! 1 then do {
           let node_q = node_p + 1;
           (q_label, u) \<leftarrow> ufd_find u node_q;
           Some (u, if p_label \<noteq> q_label
                    then insertEdge cc_graph (to_dense_at td p_label)
                                             (to_dense_at td q_label)
                    else cc_graph)
         } else Some (u, cc_graph));
       Some (node_p + 1, u, cc_graph)
     })" for p0 :: nat
  have fd: "\<exists>r v'. ufd_find v x = Some (r, v') \<and> U v'" if "U v" "x < s0 * s1" for v x
    using ufd_find_returns [of v x] that by (auto simp: U_def)
  have ax: "\<exists>v' g'. (if c then do {
           let node_q = y;
           (q_label, u) \<leftarrow> ufd_find v node_q;
           Some (u, if pl \<noteq> q_label
                    then insertEdge g (to_dense_at td pl) (to_dense_at td q_label)
                    else g)
         } else Some (v, g)) = Some (v', g') \<and> U v' \<and> G g'"
    if "U v" "G g" "c \<Longrightarrow> y < s0 * s1" for c y v g pl
  proof (cases c)
    case True
    from fd [OF that(1) that(3) [OF True]] obtain r v' where
      "ufd_find v y = Some (r, v')" "U v'" by blast
    then show ?thesis using True that(2) by (simp add: G_def)
  next
    case False
    then show ?thesis using that(1,2) by simp
  qed
  have step: "\<exists>t'. body p0 p1 (p0 * s1 + p1, v, g) = Some t' \<and> fst t' = p0 * s1 + Suc p1
                \<and> U (fst (snd t')) \<and> G (snd (snd t'))"
    if p: "p0 < s0" "p1 < s1" and v: "U v" "G g" for p0 p1 v g
  proof -
    define n where "n = p0 * s1 + p1"
    have nl: "n < s0 * s1" unfolding n_def using idx2_less [OF p] .
    from fd [OF v(1) nl] obtain pl v0 where f0: "ufd_find v n = Some (pl, v0)" and u0: "U v0"
      by blast
    have b0: "p0 + 1 < shape obj ! 0 \<Longrightarrow> n + shape obj ! 1 < s0 * s1"
    proof -
      assume "p0 + 1 < shape obj ! 0"
      then have "p0 + 1 < s0" by (simp add: sh)
      from idx2_less [OF this p(2)] show ?thesis by (simp add: n_def sh algebra_simps)
    qed
    have b1: "p1 + 1 < shape obj ! 1 \<Longrightarrow> n + 1 < s0 * s1"
    proof -
      assume "p1 + 1 < shape obj ! 1"
      then have "p1 + 1 < s1" by (simp add: sh)
      from idx2_less [OF p(1) this] show ?thesis by (simp add: n_def)
    qed
    from ax [OF u0 v(2) b0, of "p0 + 1 < shape obj ! 0" pl] obtain v1 g1 where
      a1: "(if p0 + 1 < shape obj ! 0 then do {
           let node_q = n + shape obj ! 1;
           (q_label, u) \<leftarrow> ufd_find v0 node_q;
           Some (u, if pl \<noteq> q_label
                    then insertEdge g (to_dense_at td pl) (to_dense_at td q_label)
                    else g)
         } else Some (v0, g)) = Some (v1, g1)" and u1: "U v1" "G g1"
      by blast
    from ax [OF u1 b1, of "p1 + 1 < shape obj ! 1" pl] obtain v2 g2 where
      a2: "(if p1 + 1 < shape obj ! 1 then do {
           let node_q = n + 1;
           (q_label, u) \<leftarrow> ufd_find v1 node_q;
           Some (u, if pl \<noteq> q_label
                    then insertEdge g1 (to_dense_at td pl) (to_dense_at td q_label)
                    else g1)
         } else Some (v1, g1)) = Some (v2, g2)" and u2: "U v2" "G g2"
      by blast
    have "body p0 p1 (n, v, g) = Some (n + 1, v2, g2)"
      unfolding body_def prod.case f0 bind.bind_lunit a1 a2 ..
    then show ?thesis using u2 by (simp add: n_def)
  qed
  have inner: "\<exists>t'. foldM (body p0) [0..<s1] t = Some t' \<and> fst t' = Suc p0 * s1
                 \<and> U (fst (snd t')) \<and> G (snd (snd t'))"
    if p0: "p0 < s0" and t: "fst t = p0 * s1" "U (fst (snd t))" "G (snd (snd t))" for p0 t
  proof -
    let ?I = "\<lambda>i (x :: nat \<times> ufd \<times> cc_graph). fst x = p0 * s1 + i
                \<and> U (fst (snd x)) \<and> G (snd (snd x))"
    have "\<exists>t'. foldM (body p0) [0..<s1] t = Some t' \<and> ?I s1 t'"
    proof (rule foldM_upt_total [where I = ?I])
      show "?I 0 t" using t by simp
    next
      fix i x assume i: "i < s1" and I: "?I i x"
      have x: "x = (p0 * s1 + i, fst (snd x), snd (snd x))" using I by (cases x) simp
      from step [OF p0 i, of "fst (snd x)" "snd (snd x)"] I
      show "\<exists>t'. body p0 i x = Some t' \<and> ?I (Suc i) t'"
        by (subst x) simp
    qed
    then obtain t' where "foldM (body p0) [0..<s1] t = Some t'" "fst t' = p0 * s1 + s1"
      "U (fst (snd t'))" "G (snd (snd t'))" by blast
    then show ?thesis by (intro exI [of _ t']) simp
  qed
  let ?J = "\<lambda>i (x :: nat \<times> ufd \<times> cc_graph). fst x = i * s1 \<and> U (fst (snd x)) \<and> G (snd (snd x))"
  have "\<exists>t'. foldM (\<lambda>p0. foldM (body p0) [0..<s1]) [0..<s0] (0, u, g0) = Some t' \<and> ?J s0 t'"
  proof (rule foldM_upt_total [where I = ?J])
    show "?J 0 (0, u, g0)" using inv len N by (simp add: U_def G_def)
  next
    fix i x assume i: "i < s0" and I: "?J i x"
    from inner [OF i, of x] I
    show "\<exists>t'. foldM (body i) [0..<s1] x = Some t' \<and> ?J (Suc i) t'" by simp
  qed
  then obtain t' where
    f: "foldM (\<lambda>p0. foldM (body p0) [0..<s1]) [0..<s0] (0, u, g0) = Some t'"
    and u': "U (fst (snd t'))" "G (snd (snd t'))"
    by blast
  have "fusion2_insert_edges obj td u g0
        = foldM (\<lambda>p0. foldM (body p0) [0..<shape obj ! 1]) [0..<shape obj ! 0] (0, u, g0)"
    unfolding fusion2_insert_edges_def body_def ..
  then have "fusion2_insert_edges obj td u g0 = Some t'"
    unfolding s01 f .
  moreover obtain n' v' g' where "t' = (n', v', g')" by (cases t' rule: prod_cases3)
  ultimately show ?thesis using u' N unfolding U_def G_def by auto
qed


lemma fusion2_fill_lifted_below:
  assumes run: "fusion2_fill_lifted obj td u cc_obj0 = Some (node_p, u', cc_obj)"
    and sr: "same_reps u u1"
    and bd: "\<And>x. x < length (parents u1) \<Longrightarrow> parents u1 ! x = x \<Longrightarrow> to_dense_at td x < N"
    and k0: "keys_below N cc_obj0"
  shows "keys_below N cc_obj"
proof (rule fusion2_fill_lifted_invariant [OF run sr, where P = "keys_below N"])
  show "keys_below N cc_obj0" by (rule k0)
next
  fix c x y w
  assume "keys_below N c" and "x < length (parents u1)" "parents u1 ! x = x"
    and "y < length (parents u1)" "parents u1 ! y = y"
  then show "keys_below N (setCost c (to_dense_at td x) (to_dense_at td y) w)"
    using bd keys_below_setCost by blast
qed


lemma fusion2_fill_lifted_graph:
  assumes run: "fusion2_fill_lifted obj td u cc_obj0 = Some (node_p, u', cc_obj)"
  shows "graph cc_obj = graph cc_obj0"
  by (rule fusion2_fill_lifted_invariant [OF run same_reps_refl,
        where P = "\<lambda>c. graph c = graph cc_obj0"])
     (simp_all add: setCost_def)

lemma fusion2_fill_lifted_returns:
  assumes wo: "wf_objective 2 obj"
    and inv: "ufd_inv u" and len: "length (parents u) = n_variables obj"
  shows "\<exists>n' u' c. fusion2_fill_lifted obj td u c0 = Some (n', u', c) \<and> ufd_inv u'
           \<and> length (parents u') = n_variables obj"
proof -
  obtain s0 s1 where sh: "shape obj = [s0, s1]"
    using wo by (auto simp: wf_objective_def length_Suc_conv numeral_2_eq_2)
  have N: "n_variables obj = s0 * s1" using wo sh by (simp add: wf_objective_def)
  define K where "K = n_offsets obj"
  have W: "xshape (weights obj) = [s0, s1, K]" "wf_tensor (weights obj)"
    and O: "xshape (offsets obj) = [K, 2]" "wf_tensor (offsets obj)"
    using wo sh by (simp_all add: wf_objective_def K_def)
  define U where "U v \<longleftrightarrow> ufd_inv v \<and> length (parents v) = s0 * s1" for v :: ufd
  define kbody where "kbody p0 p1 p_label = (\<lambda>offset_index (u, cc_obj). do {
           o0 \<leftarrow> xat2 (offsets obj) offset_index 0;
           o1 \<leftarrow> xat2 (offsets obj) offset_index 1;
           let q0 = int p0 + o0;
           let q1 = int p1 + o1;
           if q0 \<ge> 0 \<and> q0 < int (shape obj ! 0) \<and> q1 \<ge> 0 \<and> q1 < int (shape obj ! 1)
           then do {
             let node_q = nat (q0 * int (shape obj ! 1) + q1);
             (q_label, u) \<leftarrow> ufd_find u node_q;
             if p_label \<noteq> q_label
             then do {
               w \<leftarrow> xat3 (weights obj) p0 p1 offset_index;
               Some (u, setCost cc_obj (to_dense_at td p_label)
                                       (to_dense_at td q_label) w)
             }
             else Some (u, cc_obj)
           }
           else Some (u, cc_obj)
         })" for p0 p1 :: nat and p_label :: nat
  define pbody where "pbody p0 = (\<lambda>p1 (node_p, u, cc_obj). do {
       (p_label, u) \<leftarrow> ufd_find u node_p;
       (u, cc_obj) \<leftarrow> foldM (kbody p0 p1 p_label) [0..<n_offsets obj] (u, cc_obj);
       Some (node_p + 1, u, cc_obj)
     })" for p0 :: nat
  have fd: "\<exists>r v'. ufd_find v x = Some (r, v') \<and> U v'" if "U v" "x < s0 * s1" for v x
    using ufd_find_returns [of v x] that by (auto simp: U_def)
  have kstep: "\<exists>t'. kbody p0 p1 pl k t = Some t' \<and> U (fst t')"
    if p: "p0 < s0" "p1 < s1" and k: "k < K" and t: "U (fst t)" for p0 p1 pl k t
  proof -
    obtain v c where tt: "t = (v, c)" by (cases t)
    have v: "U v" using t tt by simp
    obtain o0 o1 where
      o: "xat2 (offsets obj) k 0 = Some o0" "xat2 (offsets obj) k 1 = Some o1"
      using xat2_wf [OF O(2,1) k, of 0] xat2_wf [OF O(2,1) k, of 1] by auto
    obtain w where w: "xat3 (weights obj) p0 p1 k = Some w"
      using xat3_wf [OF W(2,1) p k] by blast
    show ?thesis
    proof (cases "0 \<le> int p0 + o0 \<and> int p0 + o0 < int s0 \<and> 0 \<le> int p1 + o1 \<and> int p1 + o1 < int s1")
      case False
      then have "kbody p0 p1 pl k t = Some (v, c)"
        using o by (auto simp: kbody_def tt sh Let_def)
      then show ?thesis using v by simp
    next
      case True
      let ?nq = "nat ((int p0 + o0) * int s1 + (int p1 + o1))"
      have "nat (int p0 + o0) < s0" "nat (int p1 + o1) < s1" using True by auto
      from idx2_less [OF this] have "?nq < s0 * s1"
        using nat_flat2 [of "int p0 + o0" "int p1 + o1" s1] True by simp
      from fd [OF v this] obtain ql v' where f: "ufd_find v ?nq = Some (ql, v')" and v': "U v'"
        by blast
      have "kbody p0 p1 pl k t
             = Some (v', if pl \<noteq> ql
                         then setCost c (to_dense_at td pl) (to_dense_at td ql) w else c)"
        using o True f w by (simp add: kbody_def tt sh Let_def)
      then show ?thesis using v' by simp
    qed
  qed
  have kloop: "\<exists>t'. foldM (kbody p0 p1 pl) [0..<K] t = Some t' \<and> U (fst t')"
    if p: "p0 < s0" "p1 < s1" and t: "U (fst t)" for p0 p1 pl t
  proof (rule foldM_upt_total [where I = "\<lambda>i (x :: ufd \<times> cc_objective). U (fst x)"])
    show "U (fst t)" by (rule t)
  next
    fix i and x :: "ufd \<times> cc_objective" assume "i < K" and "U (fst x)"
    then show "\<exists>t'. kbody p0 p1 pl i x = Some t' \<and> U (fst t')" using kstep [OF p] by blast
  qed
  have step: "\<exists>t'. pbody p0 p1 (p0 * s1 + p1, v, c) = Some t' \<and> fst t' = p0 * s1 + Suc p1
                \<and> U (fst (snd t'))"
    if p: "p0 < s0" "p1 < s1" and v: "U v" for p0 p1 v c
  proof -
    define n where "n = p0 * s1 + p1"
    have nl: "n < s0 * s1" unfolding n_def using idx2_less [OF p] .
    from fd [OF v nl] obtain pl v0 where f0: "ufd_find v n = Some (pl, v0)" and u0: "U v0"
      by blast
    from kloop [OF p, of "(v0, c)" pl] u0 obtain x where
      k: "foldM (kbody p0 p1 pl) [0..<n_offsets obj] (v0, c) = Some x" and ux: "U (fst x)"
      unfolding K_def by auto
    have "pbody p0 p1 (n, v, c) = Some (n + 1, fst x, snd x)"
      unfolding pbody_def prod.case f0 bind.bind_lunit k by (simp add: case_prod_beta)
    then show ?thesis using ux by (simp add: n_def)
  qed
  have inner: "\<exists>t'. foldM (pbody p0) [0..<s1] t = Some t' \<and> fst t' = Suc p0 * s1
                 \<and> U (fst (snd t'))"
    if p0: "p0 < s0" and t: "fst t = p0 * s1" "U (fst (snd t))" for p0 t
  proof -
    let ?I = "\<lambda>i (x :: nat \<times> ufd \<times> cc_objective). fst x = p0 * s1 + i \<and> U (fst (snd x))"
    have "\<exists>t'. foldM (pbody p0) [0..<s1] t = Some t' \<and> ?I s1 t'"
    proof (rule foldM_upt_total [where I = ?I])
      show "?I 0 t" using t by simp
    next
      fix i x assume i: "i < s1" and I: "?I i x"
      have x: "x = (p0 * s1 + i, fst (snd x), snd (snd x))" using I by (cases x) simp
      from step [OF p0 i, of "fst (snd x)" "snd (snd x)"] I
      show "\<exists>t'. pbody p0 i x = Some t' \<and> ?I (Suc i) t'"
        by (subst x) simp
    qed
    then obtain t' where "foldM (pbody p0) [0..<s1] t = Some t'" "fst t' = p0 * s1 + s1"
      "U (fst (snd t'))" by blast
    then show ?thesis by (intro exI [of _ t']) simp
  qed
  let ?J = "\<lambda>i (x :: nat \<times> ufd \<times> cc_objective). fst x = i * s1 \<and> U (fst (snd x))"
  have "\<exists>t'. foldM (\<lambda>p0. foldM (pbody p0) [0..<s1]) [0..<s0] (0, u, c0) = Some t' \<and> ?J s0 t'"
  proof (rule foldM_upt_total [where I = ?J])
    show "?J 0 (0, u, c0)" using inv len N by (simp add: U_def)
  next
    fix i x assume i: "i < s0" and I: "?J i x"
    from inner [OF i, of x] I
    show "\<exists>t'. foldM (pbody i) [0..<s1] x = Some t' \<and> ?J (Suc i) t'" by simp
  qed
  then obtain t' where
    f: "foldM (\<lambda>p0. foldM (pbody p0) [0..<s1]) [0..<s0] (0, u, c0) = Some t'"
    and u': "U (fst (snd t'))"
    by blast
  have s01: "shape obj ! 0 = s0" "shape obj ! 1 = s1" by (simp_all add: sh)
  have "fusion2_fill_lifted obj td u c0
        = foldM (\<lambda>p0. foldM (pbody p0) [0..<shape obj ! 1]) [0..<shape obj ! 0] (0, u, c0)"
    unfolding fusion2_fill_lifted_def pbody_def kbody_def ..
  then have "fusion2_fill_lifted obj td u c0 = Some t'"
    unfolding s01 f .
  moreover obtain n' v' g' where "t' = (n', v', g')" by (cases t' rule: prod_cases3)
  ultimately show ?thesis using u' N unfolding U_def by auto
qed


lemma fusion2_build_returns:
  assumes wo: "wf_objective 2 obj"
    and inv: "ufd_inv u0" and len: "length (parents u0) = n_variables obj"
    and dl: "n_variables obj \<le> length (xdata res0)"
    and solver: "\<And>c l. \<exists>l'. sf c l = Some l' \<and> length l' = length l"
  shows "\<exists>u res c cc e. fusion2_build obj sf u0 res0 = Some (u, res, c, cc, e)
           \<and> ufd_inv u \<and> length (parents u) = n_variables obj
           \<and> length (xdata res) = length (xdata res0)
           \<and> (\<forall>var<n_variables obj. xdata res ! var < length cc)"
proof -
  let ?td = "representativeLabeling u0"
  let ?N = "numberOfSets u0"
  from dense_relabel_returns [OF inv len dl, of ?td] obtain u2 d where
    dr: "dense_relabel obj ?td u0 (xdata res0) = Some (u2, d)"
    and u2: "ufd_inv u2" "length (parents u2) = n_variables obj"
    by blast
  note dc = dense_relabel_char [OF dr]
  have bd: "to_dense_at ?td x < ?N" if "x < length (parents u0)" "parents u0 ! x = x" for x
    using to_dense_at_less [OF inv that] .
  have dN: "d ! var < ?N" if "var < n_variables obj" for var
  proof -
    from dc(3) that obtain r where r: "is_rep (parents u0) var r" "d ! var = to_dense_at ?td r"
      by blast
    from is_rep_root [OF r(1)] bd [of r] r(2) show ?thesis by simp
  qed
  from fusion2_insert_edges_returns [OF wo u2, of ?td "UndirectedGraph ?N"] obtain n3 u3 g where
    ie: "fusion2_insert_edges obj ?td u2 (UndirectedGraph ?N) = Some (n3, u3, g)"
    and u3: "ufd_inv u3" "length (parents u3) = n_variables obj"
    and g: "numberOfNodes g = ?N"
    by (auto simp: UndirectedGraph_def)
  have s3: "same_reps u3 u0" using fusion2_insert_edges_reps [OF ie dc(2)] .
  from fusion2_fill_lifted_returns [OF wo u3, of ?td "LiftedMulticutObjective g"]
  obtain n4 u4 c where
    fl: "fusion2_fill_lifted obj ?td u3 (LiftedMulticutObjective g) = Some (n4, u4, c)"
    and u4: "ufd_inv u4" "length (parents u4) = n_variables obj"
    by blast
  have gc: "numberOfNodes (graph c) = ?N"
    using fusion2_fill_lifted_graph [OF fl] g by (simp add: LiftedMulticutObjective_def)
  have k0: "keys_below ?N (LiftedMulticutObjective g)"
    by (simp add: keys_below_def LiftedMulticutObjective_def)
  have kb: "keys_below ?N c"
    by (rule fusion2_fill_lifted_below [OF fl s3 _ k0]) (rule bd)
  from solver [of c "replicate ?N 0"] obtain cc where
    cc: "sf c (replicate ?N 0) = Some cc" and lcc: "length cc = ?N"
    by auto
  from evalNodeLabels_returns [of cc c] kb lcc obtain e where
    e: "evalNodeLabels c cc = Some e" by auto
  have rs: "run_solver sf c = Some (cc, e)" using cc e gc by (simp add: run_solver_def)
  have "fusion2_build obj sf u0 res0 = Some (u4, res0\<lparr>xdata := d\<rparr>, c, cc, e)"
    using dr ie fl rs by (simp add: fusion2_build_def Let_def)
  then show ?thesis using u4 dc(1) dN lcc by auto
qed

lemma fusion2_fuse_returns:
  assumes wo: "wf_objective 2 (self_objective self)"
    and wa: "wf_labels (self_objective self) A" and wb: "wf_labels (self_objective self) B"
    and len: "length (parents (self_ufd self)) = n_variables (self_objective self)"
    and solver: "\<And>c l. \<exists>l'. self_solver_fatory self c l = Some l' \<and> length l' = length l"
  shows "\<exists>r self'. fusion2_fuse self A B = Some (r, self')
           \<and> length (parents (self_ufd self')) = n_variables (self_objective self')
           \<and> self_objective self' = self_objective self
           \<and> self_solver_fatory self' = self_solver_fatory self"
proof -
  let ?obj = "self_objective self"
  obtain s0 s1 where sh: "shape ?obj = [s0, s1]"
    using wo by (auto simp: wf_objective_def length_Suc_conv numeral_2_eq_2)
  have N: "n_variables ?obj = s0 * s1" using wo sh by (simp add: wf_objective_def)
  have r0: "length (parents (ufd_reset (self_ufd self))) = n_variables ?obj"
    using len by (simp add: ufd_reset_def ufd_construct_def)
  from fusion2_merge_ufd_returns [OF wo wa wb ufd_inv_reset r0] obtain u1 where
    m: "fusion2_merge_ufd ?obj (ufd_reset (self_ufd self)) A B = Some u1"
    and u1: "ufd_inv u1" "length (parents u1) = n_variables ?obj"
    by blast
  note ea = evaluate2_energy [OF wo wa] and eb = evaluate2_energy [OF wo wb]
  let ?res0 = "alloc_res [shape ?obj ! 0, shape ?obj ! 1]"
  have l0: "length (xdata ?res0) = n_variables ?obj"
    by (simp add: alloc_res_def sh N)
  then have dl: "n_variables ?obj \<le> length (xdata ?res0)" by simp
  from fusion2_build_returns [where sf = "self_solver_fatory self", OF wo u1 dl solver] obtain u res c cc e where
    b: "fusion2_build ?obj (self_solver_fatory self) u1 ?res0 = Some (u, res, c, cc, e)"
    and u: "length (parents u) = n_variables ?obj"
    and lr: "length (xdata res) = length (xdata ?res0)"
    and rb: "\<forall>var<n_variables ?obj. xdata res ! var < length cc"
    by blast
  have la: "length (xdata A) = n_variables ?obj" and lb: "length (xdata B) = n_variables ?obj"
    using wa wb wo by (simp_all add: wf_labels_def wf_tensor_def wf_objective_def)
  have "\<exists>r. fuse_callback ?obj A B (energy2_spec ?obj A) (energy2_spec ?obj B) cc e res = Some r"
  proof (cases "e < min (energy2_spec ?obj A) (energy2_spec ?obj B)")
    case True
    from materialize_returns [of ?obj res cc] rb lr l0 obtain r where
      "materialize ?obj cc res = Some r" by auto
    then show ?thesis using True by (simp add: fuse_callback_def)
  next
    case False
    have cp: "\<exists>r. copy_into X res = Some r" if "length (xdata X) = n_variables ?obj" for X
      using that lr l0 by (simp add: copy_into_def)
    have "fuse_callback ?obj A B (energy2_spec ?obj A) (energy2_spec ?obj B) cc e res
            = (if energy2_spec ?obj A < energy2_spec ?obj B
               then copy_into A res else copy_into B res)"
      unfolding fuse_callback_def using False by (simp only: if_False)
    then show ?thesis using cp [OF la] cp [OF lb] by auto
  qed
  then obtain r where
    cb: "fuse_callback ?obj A B (energy2_spec ?obj A) (energy2_spec ?obj B) cc e res = Some r"
    by blast
  have "fusion2_fuse self A B = Some (r, self\<lparr>self_ufd := u\<rparr>)"
    using m ea eb b cb by (simp add: fusion2_fuse_def Let_def)
  then show ?thesis using u by simp
qed


lemma fusion2_merge_ufd2_returns:
  assumes wo: "wf_objective 2 obj" and ws: "wf_stack obj S"
    and inv: "ufd_inv u" and len: "length (parents u) = n_variables obj"
  shows "\<exists>u'. fusion2_merge_ufd2 obj u S = Some u' \<and> ufd_inv u'
           \<and> length (parents u') = n_variables obj"
proof -
  obtain s0 s1 where sh: "shape obj = [s0, s1]"
    using wo by (auto simp: wf_objective_def length_Suc_conv numeral_2_eq_2)
  have N: "n_variables obj = s0 * s1" using wo sh by (simp add: wf_objective_def)
  have s01: "shape obj ! 0 = s0" "shape obj ! 1 = s1" by (simp_all add: sh)
  define K where "K = last (xshape S)"
  have l2: "length (shape obj) = 2" using sh by simp
  have Ssh: "xshape S = [s0, s1, K]" and Swf: "wf_tensor S"
    using wf_stack_shape(1) [OF ws l2] ws sh by (simp_all add: K_def wf_stack_def)
  have nK: "nth_opt (xshape S) 2 = Some K" using wf_stack_shape(2) [OF ws l2] by (simp add: K_def)
  define lab where "lab n c = xdata S ! (n * K + c)" for n c
  have at: "xat3 S a b c = Some (lab (a * s1 + b) c)" if "a < s0" "b < s1" "c < K" for a b c
    using xat3_wf [OF Swf Ssh that] by (simp add: lab_def)
  define U where "U v \<longleftrightarrow> ufd_inv v \<and> length (parents v) = s0 * s1" for v :: ufd
  define body where "body p0 = (\<lambda>p1 (node_p, u). do {
         u \<leftarrow> (if p0 + 1 < shape obj ! 0 then do {
                 do_merge \<leftarrow> do_merge_loop (\<lambda>c. do {
                   p_label \<leftarrow> xat3 S p0 p1 c;
                   q_label \<leftarrow> xat3 S (p0 + 1) p1 c;
                   Some (p_label, q_label)
                 }) [0..<K];
                 if do_merge then ufd_merge u node_p (node_p + shape obj ! 1) else Some u
               } else Some u);
         u \<leftarrow> (if p1 + 1 < shape obj ! 1 then do {
                 do_merge \<leftarrow> do_merge_loop (\<lambda>c. do {
                   p_label \<leftarrow> xat3 S p0 p1 c;
                   q_label \<leftarrow> xat3 S p0 (p1 + 1) c;
                   Some (p_label, q_label)
                 }) [0..<K];
                 if do_merge then ufd_merge u node_p (node_p + 1) else Some u
               } else Some u);
         Some (node_p + 1, u)
       })" for p0 :: nat
  have mg: "\<exists>v'. (if c then ufd_merge v x y else Some v) = Some v' \<and> U v'"
    if "U v" "x < s0 * s1" "y < s0 * s1" for c v x y
  proof (cases c)
    case True
    from ufd_merge_returns [of v x y] that show ?thesis using True by (auto simp: U_def)
  next
    case False
    then show ?thesis using that(1) by simp
  qed
  have lp: "\<exists>b. do_merge_loop (\<lambda>c. do {
                   p_label \<leftarrow> xat3 S p0 p1 c;
                   q_label \<leftarrow> xat3 S q0 q1 c;
                   Some (p_label, q_label)
                 }) [0..<K] = Some b"
    if "p0 < s0" "p1 < s1" "q0 < s0" "q1 < s1" for p0 p1 q0 q1
  proof -
    have "do_merge_loop (\<lambda>c. do {
                   p_label \<leftarrow> xat3 S p0 p1 c;
                   q_label \<leftarrow> xat3 S q0 q1 c;
                   Some (p_label, q_label)
                 }) [0..<K]
          = Some (\<forall>c\<in>set [0..<K]. lab (p0 * s1 + p1) c = lab (q0 * s1 + q1) c)"
    proof (rule do_merge_loop_char [where f = "\<lambda>c. lab (p0 * s1 + p1) c"
                                      and g = "\<lambda>c. lab (q0 * s1 + q1) c"], rule ballI)
      fix c assume "c \<in> set [0..<K]"
      then have c: "c < K" by simp
      show "do {
                   p_label \<leftarrow> xat3 S p0 p1 c;
                   q_label \<leftarrow> xat3 S q0 q1 c;
                   Some (p_label, q_label)
                 } = Some (lab (p0 * s1 + p1) c, lab (q0 * s1 + q1) c)"
        unfolding at [OF that(1,2) c] at [OF that(3,4) c] by simp
    qed
    then show ?thesis by blast
  qed
  have step: "\<exists>t'. body p0 p1 (p0 * s1 + p1, v) = Some t' \<and> fst t' = p0 * s1 + Suc p1 \<and> U (snd t')"
    if p: "p0 < s0" "p1 < s1" and v: "U v" for p0 p1 v
  proof -
    define n where "n = p0 * s1 + p1"
    have nl: "n < s0 * s1" unfolding n_def using idx2_less [OF p] .
    have e0: "\<exists>v'. (if p0 + 1 < shape obj ! 0 then do {
                 do_merge \<leftarrow> do_merge_loop (\<lambda>c. do {
                   p_label \<leftarrow> xat3 S p0 p1 c;
                   q_label \<leftarrow> xat3 S (p0 + 1) p1 c;
                   Some (p_label, q_label)
                 }) [0..<K];
                 if do_merge then ufd_merge w n (n + shape obj ! 1) else Some w
               } else Some w) = Some v' \<and> U v'" if w: "U w" for w
    proof (cases "p0 + 1 < s0")
      case True
      from lp [OF p True p(2)] obtain b where b: "do_merge_loop (\<lambda>c. do {
                   p_label \<leftarrow> xat3 S p0 p1 c;
                   q_label \<leftarrow> xat3 S (p0 + 1) p1 c;
                   Some (p_label, q_label)
                 }) [0..<K] = Some b" by blast
      have "(p0 + 1) * s1 + p1 < s0 * s1" using idx2_less [OF True p(2)] .
      then have "n + s1 < s0 * s1" by (simp add: n_def algebra_simps)
      from mg [OF w nl this, of b] show ?thesis
        unfolding s01 b using True by simp
    next
      case False
      then show ?thesis unfolding s01 using w by simp
    qed
    have e1: "\<exists>v'. (if p1 + 1 < shape obj ! 1 then do {
                 do_merge \<leftarrow> do_merge_loop (\<lambda>c. do {
                   p_label \<leftarrow> xat3 S p0 p1 c;
                   q_label \<leftarrow> xat3 S p0 (p1 + 1) c;
                   Some (p_label, q_label)
                 }) [0..<K];
                 if do_merge then ufd_merge w n (n + 1) else Some w
               } else Some w) = Some v' \<and> U v'" if w: "U w" for w
    proof (cases "p1 + 1 < s1")
      case True
      from lp [OF p p(1) True] obtain b where b: "do_merge_loop (\<lambda>c. do {
                   p_label \<leftarrow> xat3 S p0 p1 c;
                   q_label \<leftarrow> xat3 S p0 (p1 + 1) c;
                   Some (p_label, q_label)
                 }) [0..<K] = Some b" by blast
      have "p0 * s1 + (p1 + 1) < s0 * s1" using idx2_less [OF p(1) True] .
      then have "n + 1 < s0 * s1" by (simp add: n_def)
      from mg [OF w nl this, of b] show ?thesis
        unfolding s01 b using True by simp
    next
      case False
      then show ?thesis unfolding s01 using w by simp
    qed
    from e0 [OF v] obtain v1 where v1: "(if p0 + 1 < shape obj ! 0 then do {
                 do_merge \<leftarrow> do_merge_loop (\<lambda>c. do {
                   p_label \<leftarrow> xat3 S p0 p1 c;
                   q_label \<leftarrow> xat3 S (p0 + 1) p1 c;
                   Some (p_label, q_label)
                 }) [0..<K];
                 if do_merge then ufd_merge v n (n + shape obj ! 1) else Some v
               } else Some v) = Some v1" and u1: "U v1" by blast
    from e1 [OF u1] obtain v2 where v2: "(if p1 + 1 < shape obj ! 1 then do {
                 do_merge \<leftarrow> do_merge_loop (\<lambda>c. do {
                   p_label \<leftarrow> xat3 S p0 p1 c;
                   q_label \<leftarrow> xat3 S p0 (p1 + 1) c;
                   Some (p_label, q_label)
                 }) [0..<K];
                 if do_merge then ufd_merge v1 n (n + 1) else Some v1
               } else Some v1) = Some v2" and u2: "U v2" by blast
    have "body p0 p1 (n, v) = Some (n + 1, v2)"
      unfolding body_def prod.case v1 bind.bind_lunit v2 ..
    then show ?thesis using u2 by (simp add: n_def)
  qed
  have inner: "\<exists>t'. foldM (body p0) [0..<s1] t = Some t' \<and> fst t' = Suc p0 * s1 \<and> U (snd t')"
    if p0: "p0 < s0" and t: "fst t = p0 * s1" "U (snd t)" for p0 t
  proof -
    let ?I = "\<lambda>i (x :: nat \<times> ufd). fst x = p0 * s1 + i \<and> U (snd x)"
    have "\<exists>t'. foldM (body p0) [0..<s1] t = Some t' \<and> ?I s1 t'"
    proof (rule foldM_upt_total [where I = ?I])
      show "?I 0 t" using t by simp
    next
      fix i x assume i: "i < s1" and I: "?I i x"
      have x: "x = (p0 * s1 + i, snd x)" using I by (cases x) simp
      from step [OF p0 i, of "snd x"] I show "\<exists>t'. body p0 i x = Some t' \<and> ?I (Suc i) t'"
        by (subst x) simp
    qed
    then obtain t' where "foldM (body p0) [0..<s1] t = Some t'" "fst t' = p0 * s1 + s1"
      "U (snd t')" by blast
    then show ?thesis by (intro exI [of _ t']) simp
  qed
  let ?J = "\<lambda>i (x :: nat \<times> ufd). fst x = i * s1 \<and> U (snd x)"
  have "\<exists>t'. foldM (\<lambda>p0. foldM (body p0) [0..<s1]) [0..<s0] (0, u) = Some t' \<and> ?J s0 t'"
  proof (rule foldM_upt_total [where I = ?J])
    show "?J 0 (0, u)" using inv len N by (simp add: U_def)
  next
    fix i x assume i: "i < s0" and I: "?J i x"
    from inner [OF i, of x] I
    show "\<exists>t'. foldM (body i) [0..<s1] x = Some t' \<and> ?J (Suc i) t'" by simp
  qed
  then obtain t' where
    f: "foldM (\<lambda>p0. foldM (body p0) [0..<s1]) [0..<s0] (0, u) = Some t'" and u': "U (snd t')"
    by blast
  have "fusion2_merge_ufd2 obj u S = do {
      (node_p, u) \<leftarrow> foldM (\<lambda>p0. foldM (body p0) [0..<shape obj ! 1]) [0..<shape obj ! 0] (0, u);
      Some u }"
    unfolding fusion2_merge_ufd2_def body_def nK by (simp only: bind.bind_lunit)
  then have "fusion2_merge_ufd2 obj u S = Some (snd t')"
    unfolding s01 f by (simp add: case_prod_beta)
  then show ?thesis using u' N by (simp add: U_def)
qed

lemma best_proposal_returns:
  assumes "\<forall>i<n. cand_energy ev labels i \<noteq> None"
  shows "\<exists>be bi. best_proposal ev labels n = Some (be, bi)
           \<and> (n = 0 \<and> be = PlusInf \<or> bi < n)"
proof -
  let ?I = "\<lambda>i (s :: float32 \<times> nat). i = 0 \<and> fst s = PlusInf \<or> snd s < i"
  have "\<exists>s'. foldM (\<lambda>i (best_e, best_i). do {
       l \<leftarrow> xview labels i;
       e \<leftarrow> ev l;
       Some (if less_best e best_e then (to_float e, i) else (best_e, best_i))
     }) [0..<n] (PlusInf, 0) = Some s' \<and> ?I n s'"
  proof (rule foldM_upt_total [where I = ?I])
    show "?I 0 (PlusInf, 0)" by simp
  next
    fix i t assume i: "i < n" and I: "?I i t"
    obtain be bi where t: "t = (be, bi)" by (cases t)
    from assms i obtain l e where l: "xview labels i = Some l" and e: "ev l = Some e"
      by (auto simp: cand_energy_def bind_eq_Some_conv)
    have "(case t of (best_e, best_i) \<Rightarrow> do {
       l \<leftarrow> xview labels i;
       e \<leftarrow> ev l;
       Some (if less_best e best_e then (to_float e, i) else (best_e, best_i))
     }) = Some (if less_best e be then (to_float e, i) else (be, bi))"
      by (simp add: t l e)
    moreover have "?I (Suc i) (if less_best e be then (to_float e, i) else (be, bi))"
      using I t by (auto simp: less_best_def)
    ultimately show "\<exists>t'. (case t of (best_e, best_i) \<Rightarrow> do {
       l \<leftarrow> xview labels i;
       e \<leftarrow> ev l;
       Some (if less_best e best_e then (to_float e, i) else (best_e, best_i))
     }) = Some t' \<and> ?I (Suc i) t'" by blast
  qed
  then show ?thesis unfolding best_proposal_def by auto
qed

lemma fuse_k_callback_returns:
  assumes wo: "wf_objective 2 obj" and ws: "wf_stack obj S"
    and lr: "length (xdata res) = n_variables obj"
    and rb: "\<forall>var<n_variables obj. xdata res ! var < length cc"
  shows "\<exists>r. fuse_k_callback obj S cc e res = Some r"
proof -
  define K where "K = last (xshape S)"
  have l2: "length (shape obj) = 2" using wo by (simp add: wf_objective_def)
  have nK: "nth_opt (xshape S) 2 = Some K" using wf_stack_shape(2) [OF ws l2] by (simp add: K_def)
  have N: "n_variables obj = prod_list (shape obj)" using wo by (simp add: wf_objective_def)
  have vw: "\<exists>l. xview S i = Some l \<and> wf_labels obj l" if "i < K" for i
  proof -
    have "\<exists>l. xview S i = Some l"
      using ws that by (simp add: xview_def wf_stack_def wf_tensor_def K_def)
    then obtain l where l: "xview S i = Some l" by blast
    from xview_wf_stack [OF ws l] have "wf_labels obj l"
      by (simp add: wf_labels_def wf_tensor_def)
    then show ?thesis using l by blast
  qed
  have ce: "\<forall>i<K. cand_energy (evaluate2 obj) S i \<noteq> None"
  proof (intro allI impI)
    fix i assume "i < K"
    from vw [OF this] obtain l where l: "xview S i = Some l" "wf_labels obj l" by blast
    show "cand_energy (evaluate2 obj) S i \<noteq> None"
      unfolding cand_energy_def l(1) using evaluate2_energy [OF wo l(2)] by simp
  qed
  from best_proposal_returns [OF ce] obtain be bi where
    bp: "best_proposal (evaluate2 obj) S K = Some (be, bi)"
    and bi: "K = 0 \<and> be = PlusInf \<or> bi < K" by blast
  show ?thesis
  proof (cases "less_best e be")
    case True
    from materialize_returns [of obj res cc] lr rb obtain r where
      "materialize obj cc res = Some r" by auto
    then show ?thesis using True nK bp by (simp add: fuse_k_callback_def)
  next
    case False
    then have "be \<noteq> PlusInf" by (auto simp: less_best_def)
    then have "bi < K" using bi by simp
    from vw [OF this] obtain l where l: "xview S bi = Some l" "wf_labels obj l" by blast
    have "length (xdata l) \<le> length (xdata res)"
      using l(2) lr N by (simp add: wf_labels_def wf_tensor_def)
    then have "\<exists>r. copy_into l res = Some r" by (simp add: copy_into_def)
    then show ?thesis using False nK bp l(1) by (auto simp: fuse_k_callback_def)
  qed
qed

lemma fusion2_fuse_k_returns:
  assumes wo: "wf_objective 2 (self_objective self)"
    and ws: "wf_stack (self_objective self) S"
    and len: "length (parents (self_ufd self)) = n_variables (self_objective self)"
    and solver: "\<And>c l. \<exists>l'. self_solver_fatory self c l = Some l' \<and> length l' = length l"
  shows "\<exists>r self'. fusion2_fuse_k self S = Some (r, self')
           \<and> length (parents (self_ufd self')) = n_variables (self_objective self')
           \<and> self_objective self' = self_objective self
           \<and> self_solver_fatory self' = self_solver_fatory self"
proof -
  let ?obj = "self_objective self"
  obtain s0 s1 where sh: "shape ?obj = [s0, s1]"
    using wo by (auto simp: wf_objective_def length_Suc_conv numeral_2_eq_2)
  have N: "n_variables ?obj = s0 * s1" using wo sh by (simp add: wf_objective_def)
  have r0: "length (parents (ufd_reset (self_ufd self))) = n_variables ?obj"
    using len by (simp add: ufd_reset_def ufd_construct_def)
  from fusion2_merge_ufd2_returns [OF wo ws ufd_inv_reset r0] obtain u1 where
    m: "fusion2_merge_ufd2 ?obj (ufd_reset (self_ufd self)) S = Some u1"
    and u1: "ufd_inv u1" "length (parents u1) = n_variables ?obj"
    by blast
  let ?res0 = "alloc_res [shape ?obj ! 0, shape ?obj ! 1]"
  have l0: "length (xdata ?res0) = n_variables ?obj"
    by (simp add: alloc_res_def sh N)
  then have dl: "n_variables ?obj \<le> length (xdata ?res0)" by simp
  from fusion2_build_returns [where sf = "self_solver_fatory self", OF wo u1 dl solver]
  obtain u res c cc e where
    b: "fusion2_build ?obj (self_solver_fatory self) u1 ?res0 = Some (u, res, c, cc, e)"
    and u: "length (parents u) = n_variables ?obj"
    and lr: "length (xdata res) = length (xdata ?res0)"
    and rb: "\<forall>var<n_variables ?obj. xdata res ! var < length cc"
    by blast
  from fuse_k_callback_returns [OF wo ws _ rb, of e] lr l0 obtain r where
    cb: "fuse_k_callback ?obj S cc e res = Some r"
    by auto
  have "fusion2_fuse_k self S = Some (r, self\<lparr>self_ufd := u\<rparr>)"
    using m b cb by (simp add: fusion2_fuse_k_def Let_def)
  then show ?thesis using u by simp
qed

end
